theory Spec2Isabelle
  imports Complex_Main "HOL-Library.AList"
begin

section \<open>Strings\<close>

text \<open>
  A Python \<open>str\<close> is modelled as a \<open>string\<close> whose characters are read as the code
  points 0..255. On this range the character classes used by the source are:
  \<^item> \<open>str.isspace\<close>, which decides both \<open>str.strip()\<close> and the regex class \<open>\s\<close>:
    TAB..CR (9..13), FS..US (28..31), SPACE (32), NEL (133) and NBSP (160);
  \<^item> the regex class \<open>\d\<close>: the ten ASCII digits;
  \<^item> \<open>str.lower\<close>: \<open>A..Z\<close> and the Latin-1 capitals 192..222 (without the
    multiplication sign 215) move to the letter 32 code points above.
\<close>

definition whitespace_chars :: string where
  "whitespace_chars =
     [CHR 0x09, CHR 0x0A, CHR 0x0B, CHR 0x0C, CHR 0x0D, CHR 0x1C, CHR 0x1D, CHR 0x1E,
      CHR 0x1F, CHR 0x20, CHR 0x85, CHR 0xA0]"

definition py_isspace :: "char \<Rightarrow> bool" where
  "py_isspace c = (c \<in> set whitespace_chars)"

definition py_isdigit :: "char \<Rightarrow> bool" where
  "py_isdigit c = (c \<in> set ''0123456789'')"

definition upper_chars :: string where
  "upper_chars = ''ABCDEFGHIJKLMNOPQRSTUVWXYZ'' @
     [CHR 0xC0, CHR 0xC1, CHR 0xC2, CHR 0xC3, CHR 0xC4, CHR 0xC5, CHR 0xC6, CHR 0xC7,
      CHR 0xC8, CHR 0xC9, CHR 0xCA, CHR 0xCB, CHR 0xCC, CHR 0xCD, CHR 0xCE, CHR 0xCF,
      CHR 0xD0, CHR 0xD1, CHR 0xD2, CHR 0xD3, CHR 0xD4, CHR 0xD5, CHR 0xD6, CHR 0xD8,
      CHR 0xD9, CHR 0xDA, CHR 0xDB, CHR 0xDC, CHR 0xDD, CHR 0xDE]"

definition lower_chars :: string where
  "lower_chars = ''abcdefghijklmnopqrstuvwxyz'' @
     [CHR 0xE0, CHR 0xE1, CHR 0xE2, CHR 0xE3, CHR 0xE4, CHR 0xE5, CHR 0xE6, CHR 0xE7,
      CHR 0xE8, CHR 0xE9, CHR 0xEA, CHR 0xEB, CHR 0xEC, CHR 0xED, CHR 0xEE, CHR 0xEF,
      CHR 0xF0, CHR 0xF1, CHR 0xF2, CHR 0xF3, CHR 0xF4, CHR 0xF5, CHR 0xF6, CHR 0xF8,
      CHR 0xF9, CHR 0xFA, CHR 0xFB, CHR 0xFC, CHR 0xFD, CHR 0xFE]"

definition py_lower :: "char \<Rightarrow> char" where
  "py_lower c = (case map_of (zip upper_chars lower_chars) c of Some l \<Rightarrow> l | None \<Rightarrow> c)"

text \<open>\<open>s.strip()\<close>: whitespace is removed at both ends.\<close>

definition py_strip :: "string \<Rightarrow> string" where
  "py_strip s = rev (dropWhile py_isspace (rev (dropWhile py_isspace s)))"

text \<open>\<open>s.startswith(p)\<close> and the substring test \<open>p in s\<close>.\<close>

fun starts_with :: "string \<Rightarrow> string \<Rightarrow> bool" where
  "starts_with [] s = True"
| "starts_with (p # ps) [] = False"
| "starts_with (p # ps) (c # cs) = (p = c \<and> starts_with ps cs)"

fun str_in :: "string \<Rightarrow> string \<Rightarrow> bool" where
  "str_in p [] = (p = [])"
| "str_in p (c # cs) = (starts_with p (c # cs) \<or> str_in p cs)"

section \<open>The regular expressions of \<open>parse_address\<close>\<close>

text \<open>
  The seven patterns of \<open>parse_address\<close> are concatenations of literals, an optional
  character, and greedy repetitions of a character class, with one capture group.
  \<open>re.search\<close> is a backtracking matcher: at every start position, from left to right,
  it explores the alternatives of each item in priority order (an optional character is
  first taken, then skipped; a greedy repetition first takes as many characters as it
  can, then fewer) and reports the first complete match. The model lists the outcomes of
  every item in that order, so the head of the list is Python's match.

  All patterns are compiled with \<open>re.IGNORECASE\<close>: a literal character matches when the
  lower-cased characters agree, and the negated class \<open>[^p]\<close> excludes \<open>p\<close> and \<open>P\<close>.
\<close>

datatype atom =
    Lit string                                \<comment> \<open>a literal text\<close>
  | Opt char                                  \<comment> \<open>\<open>c?\<close>\<close>
  | Rep "char \<Rightarrow> bool" nat "nat option"        \<comment> \<open>\<open>[..]*\<close>, \<open>[..]+\<close>, \<open>[..]{n}\<close>: class, least, most\<close>

datatype piece =
    Plain atom
  | Group "atom list"                         \<comment> \<open>\<open>( ... )\<close>, capture group 1\<close>

definition ci_eq :: "char \<Rightarrow> char \<Rightarrow> bool" where
  "ci_eq p c = (py_lower p = py_lower c)"

fun lit_rest :: "string \<Rightarrow> string \<Rightarrow> string option" where
  "lit_rest [] s = Some s"
| "lit_rest (p # ps) [] = None"
| "lit_rest (p # ps) (c # cs) = (if ci_eq p c then lit_rest ps cs else None)"

text \<open>The texts left after one item, in the matcher's priority order.\<close>

fun match_atom :: "atom \<Rightarrow> string \<Rightarrow> string list" where
  "match_atom (Lit l) s = (case lit_rest l s of None \<Rightarrow> [] | Some r \<Rightarrow> [r])"
| "match_atom (Opt p) [] = [[]]"
| "match_atom (Opt p) (c # cs) = (if ci_eq p c then [cs, c # cs] else [c # cs])"
| "match_atom (Rep cl lo hi) s =
     (let m = length (takeWhile cl s);
          m' = (case hi of None \<Rightarrow> m | Some h \<Rightarrow> min m h)
      in map (\<lambda>k. drop k s) (rev [lo ..< Suc m']))"

fun match_atoms :: "atom list \<Rightarrow> string \<Rightarrow> string list" where
  "match_atoms [] s = [s]"
| "match_atoms (a # as) s = concat (map (match_atoms as) (match_atom a s))"

text \<open>
  Matching a whole pattern threads the text of group 1 (\<open>None\<close> while the group has not
  taken part) and yields the pairs (group 1, remaining text).
\<close>

fun match_pieces :: "piece list \<Rightarrow> string option \<Rightarrow> string \<Rightarrow> (string option \<times> string) list" where
  "match_pieces [] g s = [(g, s)]"
| "match_pieces (Plain a # ps) g s = concat (map (match_pieces ps g) (match_atom a s))"
| "match_pieces (Group as # ps) g s =
     concat (map (\<lambda>r. match_pieces ps (Some (take (length s - length r) s)) r)
                 (match_atoms as s))"

text \<open>
  A match object is modelled by its group 1: \<open>Some g\<close> when the group took part,
  \<open>None\<close> when it did not (then \<open>match.lastindex\<close> is \<open>None\<close>).
\<close>

definition re_match :: "piece list \<Rightarrow> string \<Rightarrow> string option option" where
  "re_match pat s = (case match_pieces pat None s of [] \<Rightarrow> None | (g, r) # _ \<Rightarrow> Some g)"

fun re_search :: "piece list \<Rightarrow> string \<Rightarrow> string option option" where
  "re_search pat [] = re_match pat []"
| "re_search pat (c # cs) =
     (case re_match pat (c # cs) of Some g \<Rightarrow> Some g | None \<Rightarrow> re_search pat cs)"

definition not_comma_dot :: "char \<Rightarrow> bool" where
  "not_comma_dot c = (c \<noteq> CHR '','' \<and> c \<noteq> CHR ''.'')"

definition not_p :: "char \<Rightarrow> bool" where
  "not_p c = (py_lower c \<noteq> CHR ''p'')"

text \<open>\<open>r"Ward Colony\s*-\s*([^,\.]+)"\<close>\<close>

definition pat_ward_colony :: "piece list" where
  "pat_ward_colony =
     [Plain (Lit ''Ward Colony''), Plain (Rep py_isspace 0 None), Plain (Lit ''-''),
      Plain (Rep py_isspace 0 None), Group [Rep not_comma_dot 1 None]]"

text \<open>\<open>r"Distirct:?\s*([^,\.]+)"\<close>\<close>

definition pat_district :: "piece list" where
  "pat_district =
     [Plain (Lit ''Distirct''), Plain (Opt CHR '':''), Plain (Rep py_isspace 0 None),
      Group [Rep not_comma_dot 1 None]]"

text \<open>\<open>r"Village:?\s*([^,\.]+)"\<close>\<close>

definition pat_village :: "piece list" where
  "pat_village =
     [Plain (Lit ''Village''), Plain (Opt CHR '':''), Plain (Rep py_isspace 0 None),
      Group [Rep not_comma_dot 1 None]]"

text \<open>\<open>r"Sub-Area\s*:?\s*([^,\.]+)"\<close>\<close>

definition pat_sub_area :: "piece list" where
  "pat_sub_area =
     [Plain (Lit ''Sub-Area''), Plain (Rep py_isspace 0 None), Plain (Opt CHR '':''),
      Plain (Rep py_isspace 0 None), Group [Rep not_comma_dot 1 None]]"

text \<open>\<open>r"Tehsil:?\s*([^,\.]+)"\<close>\<close>

definition pat_tehsil :: "piece list" where
  "pat_tehsil =
     [Plain (Lit ''Tehsil''), Plain (Opt CHR '':''), Plain (Rep py_isspace 0 None),
      Group [Rep not_comma_dot 1 None]]"

text \<open>\<open>r"pin-?(\d{6})"\<close>\<close>

definition pat_pin :: "piece list" where
  "pat_pin = [Plain (Lit ''pin''), Plain (Opt CHR ''-''), Group [Rep py_isdigit 6 (Some 6)]]"

text \<open>\<open>r"(\d+\s*m\s+from\s+[^p]+)"\<close>\<close>

definition pat_landmark :: "piece list" where
  "pat_landmark =
     [Group [Rep py_isdigit 1 None, Rep py_isspace 0 None, Lit ''m'', Rep py_isspace 1 None,
             Lit ''from'', Rep py_isspace 1 None, Rep not_p 1 None]]"

section \<open>\<open>parse_address\<close>\<close>

text \<open>
  A Python \<open>dict\<close> is an association list in insertion order; \<open>d[k] = v\<close> is
  \<open>AList.update k v d\<close>: a key that is present keeps its place and takes the new value,
  a new key goes to the end.
\<close>

type_synonym py_dict = "(string \<times> string) list"

definition patterns :: "(string \<times> piece list) list" where
  "patterns =
     [(''Ward/Colony'', pat_ward_colony),
      (''District'', pat_district),
      (''Village'', pat_village),
      (''Sub-Area/Road'', pat_sub_area),
      (''Tehsil/Locality'', pat_tehsil),
      (''PIN Code'', pat_pin),
      (''Landmark'', pat_landmark)]"

text \<open>
  \<open>match.group(1) if match.lastindex and match.lastindex >= 1 else ""\<close> for a match,
  \<open>""\<close> for no match.
\<close>

definition field_of :: "string option option \<Rightarrow> string" where
  "field_of m = (case m of None \<Rightarrow> [] | Some None \<Rightarrow> [] | Some (Some g) \<Rightarrow> g)"

definition parse_address :: "string \<Rightarrow> py_dict" where
  "parse_address addr =
     (let parsed = foldl (\<lambda>d (key, pat). AList.update key (field_of (re_search pat addr)) d)
                         [] patterns;
          parsed = AList.update ''State''
                     (if str_in ''Madhya Pradesh'' addr then ''Madhya Pradesh'' else []) parsed;
          parsed = AList.update ''Country''
                     (if str_in ''India'' addr then ''India'' else []) parsed
      in parsed)"

definition address_keys :: "string list" where
  "address_keys =
     [''Ward/Colony'', ''District'', ''Village'', ''Sub-Area/Road'', ''Tehsil/Locality'',
      ''PIN Code'', ''Landmark'', ''State'', ''Country'']"

subsection \<open>Occurrences of a PIN in an address\<close>

text \<open>
  The words of the specification: a 6-digit sequence preceded by \<open>pin\<close> or \<open>pin-\<close> in
  any letter case. \<open>pin_starts s\<close> says that \<open>s\<close> begins with such an occurrence.
\<close>

definition is_pin_marker :: "string \<Rightarrow> bool" where
  "is_pin_marker p = (map py_lower p = ''pin'' \<or> map py_lower p = ''pin-'')"

definition six_digits :: "string \<Rightarrow> bool" where
  "six_digits d = (length d = 6 \<and> list_all py_isdigit d)"

definition pin_starts :: "string \<Rightarrow> bool" where
  "pin_starts s = (\<exists>p d rest. s = p @ d @ rest \<and> is_pin_marker p \<and> six_digits d)"

section \<open>\<open>save_to_db\<close>\<close>

text \<open>The exceptions that the modelled code raises or lets pass.\<close>

datatype error =
    IndexError                \<comment> \<open>a list index out of range\<close>
  | DatabaseError             \<comment> \<open>the record store refused the write\<close>
  | ValueError                \<comment> \<open>raised by \<open>Image.crop\<close> of the imaging library\<close>
  | UnidentifiedImageError    \<comment> \<open>raised by \<open>Image.open\<close> of the imaging library\<close>
  | WebDriverException        \<comment> \<open>raised by a call to the browser driver\<close>
  | UnboundLocalError         \<comment> \<open>a local variable read before its assignment\<close>

text \<open>
  \<open>ScrapedRecord\<close>: five JSON fields, each the \<open>dict\<close> of one section. The table of
  records is the list of the rows created so far, oldest first.
\<close>

record scraped_record =
  registration_details :: py_dict
  seller_details :: py_dict
  buyer_details :: py_dict
  property_details :: py_dict
  khasra_details :: py_dict

text \<open>\<open>dict(pairs)\<close>: the pairs are stored one after the other.\<close>

definition dict_of :: "(string \<times> string) list \<Rightarrow> py_dict" where
  "dict_of ps = foldl (\<lambda>d (k, v). AList.update k v d) [] ps"

type_synonym section_texts = "string list \<times> string list"

definition section_dict :: "section_texts \<Rightarrow> py_dict" where
  "section_dict sec = dict_of (zip (fst sec) (snd sec))"

text \<open>
  \<open>save_to_db\<close> reads \<open>all_sections[0]\<close> .. \<open>all_sections[4]\<close>, so a shorter list raises
  \<open>IndexError\<close>. The write happens in \<open>transaction.atomic()\<close>: \<open>db_ok\<close> tells whether the
  store accepts it; when it does not, nothing is stored and the exception is raised again.
\<close>

definition save_to_db ::
  "section_texts list \<Rightarrow> bool \<Rightarrow> scraped_record list \<Rightarrow> error + scraped_record list" where
  "save_to_db all_sections db_ok db =
     (if length all_sections < 5 then Inl IndexError
      else if \<not> db_ok then Inl DatabaseError
      else Inr (db @
        [\<lparr>registration_details = section_dict (all_sections ! 0),
          seller_details = section_dict (all_sections ! 1),
          buyer_details = section_dict (all_sections ! 2),
          property_details = section_dict (all_sections ! 3),
          khasra_details = section_dict (all_sections ! 4)\<rparr>]))"

definition stored_sections :: "scraped_record \<Rightarrow> py_dict list" where
  "stored_sections r =
     [registration_details r, seller_details r, buyer_details r, property_details r,
      khasra_details r]"

definition sample_sections :: "section_texts list" where
  "sample_sections =
     [([''No''], [''7'']), ([''From''], [''A'']), ([''To''], [''B'']),
      ([''Area'', ''Use'', ''Zone''], [''12'', ''Farm'']),
      ([''Plot''], [''3'', ''4''])]"

section \<open>The CAPTCHA relay\<close>

text \<open>
  The Django cache holds the operator's answer under the key \<open>captcha:run:\<open>id\<close>\<close>. The
  key is determined by the run id, so the model indexes the cache by the id itself.
\<close>

type_synonym cache = "nat \<rightharpoonup> string"

text \<open>An HTTP request: its method and its form fields (\<open>request.POST\<close>).\<close>

record request =
  http_method :: string
  post :: "string \<rightharpoonup> string"

text \<open>
  \<open>get_status\<close>, the intake side: the only place that writes the slot. \<open>latest_run\<close> is
  the id of the newest \<open>ScrapingRun\<close>, if any. The result is the cache after the request
  and the \<open>captcha_value\<close> handed to the template (the rendering itself is not modelled).
\<close>

definition get_status :: "nat option \<Rightarrow> request \<Rightarrow> cache \<Rightarrow> cache \<times> string option" where
  "get_status latest_run request cache =
     (if http_method request = ''POST'' then
        (let captcha_value =
               py_strip (case post request ''captcha_value'' of None \<Rightarrow> [] | Some v \<Rightarrow> v)
         in case latest_run of
              Some run_id \<Rightarrow>
                if captcha_value \<noteq> [] then (cache(run_id \<mapsto> captcha_value), Some captcha_value)
                else (cache, Some captcha_value)
            | None \<Rightarrow> (cache, Some captcha_value))
      else (cache, None))"

text \<open>
  The intake side and the scraping run share nothing but the cache. While the run sleeps
  between two polls the slot can change: an operator posts a form (\<open>Intake\<close>, with the
  newest run at that moment), or the entry outlives its time-to-live of 300 seconds and
  disappears (\<open>Expired\<close>). \<open>intake k\<close> is what happens during the \<open>k\<close>-th sleep; the
  clock of a run counts its sleeps.
\<close>

datatype cache_event =
    Quiet
  | Intake "nat option" request
  | Expired nat

fun apply_event :: "cache_event \<Rightarrow> cache \<Rightarrow> cache" where
  "apply_event Quiet cache = cache"
| "apply_event (Intake latest_run request) cache = fst (get_status latest_run request cache)"
| "apply_event (Expired run_id) cache = cache(run_id := None)"

text \<open>
  \<open>_wait_for_captcha_value\<close>. The loop polls while \<open>waited < timeout\<close>; a value that is
  present and truthy (a non-empty text) is deleted from the cache and returned; otherwise
  the run sleeps and \<open>waited\<close> grows by \<open>poll_interval\<close>. With \<open>poll_interval \<le> 0\<close> the
  source loop never ends, so the model is a partial function: \<open>None\<close> stands for a call
  that does not return. The callers pass an \<open>int\<close> timeout and the default interval \<open>1.0\<close>,
  for which Python's arithmetic is exact; the model takes both as integers. The result is
  the returned value (\<open>None\<close> for Python's \<open>None\<close>), the cache and the clock.
\<close>

partial_function (option) wait_loop ::
  "(nat \<Rightarrow> cache_event) \<Rightarrow> nat \<Rightarrow> int \<Rightarrow> int \<Rightarrow> int \<Rightarrow> cache \<Rightarrow> nat \<Rightarrow>
   (string option \<times> cache \<times> nat) option" where
  "wait_loop intake run_id timeout poll_interval waited cache clock =
     (if waited < timeout then
        (let value = cache run_id
         in if value \<noteq> None \<and> value \<noteq> Some [] then Some (value, cache(run_id := None), clock)
            else wait_loop intake run_id timeout poll_interval (waited + poll_interval)
                   (apply_event (intake clock) cache) (Suc clock))
      else Some (None, cache, clock))"

declare wait_loop.simps [code]

definition wait_for_captcha_value ::
  "(nat \<Rightarrow> cache_event) \<Rightarrow> nat \<Rightarrow> int \<Rightarrow> int \<Rightarrow> cache \<Rightarrow> nat \<Rightarrow>
   (string option \<times> cache \<times> nat) option" where
  "wait_for_captcha_value intake run_id timeout poll_interval cache clock =
     wait_loop intake run_id timeout poll_interval 0 cache clock"

text \<open>No submission and no expiry from a given moment on; the number of polls of a wait.\<close>

definition quiet_from :: "(nat \<Rightarrow> cache_event) \<Rightarrow> nat \<Rightarrow> bool" where
  "quiet_from intake clock = (\<forall>k\<ge>clock. intake k = Quiet)"

definition polls_needed :: "int \<Rightarrow> int \<Rightarrow> int \<Rightarrow> nat" where
  "polls_needed timeout poll_interval waited =
     nat ((timeout - waited + poll_interval - 1) div poll_interval)"

definition captcha_post :: request where
  "captcha_post = \<lparr>http_method = ''POST'', post = [''captcha_value'' \<mapsto> '' ab12 '']\<rparr>"

section \<open>Visual capture\<close>















section \<open>The scraping run\<close>

text \<open>
  \<open>trigger_scrape\<close> talks to four parties: the cache, the status and record tables of the
  database, and the browser. The \<open>world\<close> holds what the run changes: the cache, the
  number of poll sleeps so far, the statuses written (message, and whether an image is
  attached), the records stored, and the number of \<open>driver.quit()\<close> calls. Two further
  fields only observe the run: \<open>row_visits\<close> lists the (page, index) pairs for which the
  body of the row loop was entered, \<open>page_visits\<close> the pages whose row list was read.
  Writing a status, logging and \<open>driver.quit()\<close> are taken not to raise.
\<close>

record world =
  slots :: cache
  sleeps :: nat
  ledger :: "(string \<times> bool) list"
  store :: "scraped_record list"
  quit_calls :: nat
  row_visits :: "(nat \<times> nat) list"
  page_visits :: "nat list"

text \<open>\<open>_create_status\<close> appends one status; \<open>driver.quit()\<close> is counted.\<close>

definition create_status :: "string \<Rightarrow> bool \<Rightarrow> world \<Rightarrow> world" where
  "create_status message with_image w = w\<lparr>ledger := ledger w @ [(message, with_image)]\<rparr>"

definition driver_quit :: "world \<Rightarrow> world" where
  "driver_quit w = w\<lparr>quit_calls := Suc (quit_calls w)\<rparr>"

text \<open>
  The browser and the site are the environment. What they answer is given by scripts, one
  field per place where the source branches or a driver call can raise; a \<open>bool\<close> field
  is \<open>True\<close> when the calls it covers run without an exception.

  One login attempt (lines 233--282): \<open>prompt_ok\<close> covers the refresh, the form fields,
  the CAPTCHA image, its capture and the prompt status (233--253); \<open>inputs_found\<close> is
  \<open>len(captcha_inputs)\<close> (260); \<open>typed_ok\<close> covers lines 264--266; \<open>buttons_found\<close> is
  \<open>len(login_button)\<close> (269); \<open>url_changes\<close> covers the click and the wait for the new
  URL (272--276); \<open>url_differs\<close> is \<open>after_url != before_url\<close> (279).
\<close>

record login_script =
  prompt_ok :: bool
  inputs_found :: nat
  typed_ok :: bool
  buttons_found :: nat
  url_changes :: bool
  url_differs :: bool

text \<open>
  The way to the search section (lines 294--305): the wait for the header (294),
  \<open>len(search_certified)\<close> (295), the click (297), the wait for the options (303).
\<close>

record nav_script =
  header_ok :: bool
  links_found :: nat
  link_click_ok :: bool
  options_ok :: bool

text \<open>
  One filter attempt (lines 311--389): \<open>page_ok\<close> covers the refresh and the lookup of the
  options (311--316); \<open>options_found\<close> is \<open>len(other_details)\<close>; \<open>dates_ready\<close> covers the
  click and the wait for the date field (318--326); \<open>filled_ok\<close> covers the filters, the
  second CAPTCHA image, its capture and the prompt status (330--361); \<open>submit_ok\<close> covers
  the CAPTCHA field, the search button and the wait for the results (368--386).
\<close>

record filter_script =
  page_ok :: bool
  options_found :: nat
  dates_ready :: bool
  filled_ok :: bool
  submit_ok :: bool

text \<open>
  The texts of the five tables of a detail view, as the page shows them: for each section
  the header cells and the body cells.
\<close>

record detail_tables =
  registration :: section_texts
  party_from :: section_texts
  party_to :: section_texts
  property_table :: section_texts
  khasra :: section_texts

text \<open>
  One pass of the row loop (lines 411--509): \<open>refreshed\<close> is the length of the row list
  read again at line 412 (\<open>None\<close> when that wait raises); \<open>detail_opens\<close> covers the click
  on the row and the wait for the registration section (419--422); \<open>tables\<close> are the texts
  read at lines 427--474 (\<open>None\<close> when a lookup or a stale element raises); \<open>save_ok\<close>
  tells whether the store accepts the record. Closing the detail view (501--509) and the
  clean-up of the handler (513--519) swallow their own exceptions and change nothing that
  the model tracks.
\<close>

record row_script =
  refreshed :: "nat option"
  detail_opens :: bool
  tables :: "detail_tables option"
  save_ok :: bool

text \<open>
  The pagination step (lines 523--533): \<open>found\<close> covers the lookup of the next button and
  the read of its class attribute, \<open>class_attr\<close> is that attribute, \<open>click_ok\<close> the click,
  \<open>reload_ok\<close> the wait for the rows of the next page.
\<close>

record next_script =
  found :: bool
  class_attr :: "string option"
  click_ok :: bool
  reload_ok :: bool

text \<open>
  A results page: the scripts of its rows, as many as line 406 finds elements (\<open>None\<close>
  when that wait raises), and its pagination control. \<open>pages env p\<close> is the page shown
  after \<open>p\<close> clicks on the next button; a site may have any number of pages.
\<close>

record page =
  listing :: "row_script list option"
  next_ctl :: next_script

text \<open>
  The environment of one run: the setting \<open>CAPTCHA_WAIT_SECONDS\<close>; the date conversion
  \<open>datetime.strptime(s, "%Y-%m-%d").strftime("%d-%m-%Y")\<close> of the standard library, taken
  as a parameter (\<open>None\<close> when it raises); whether \<open>_driver_from_config()\<close> and
  \<open>driver.get\<close> succeed; the scripts; the wait for the first results (401--403); and the
  events on the intake side. The texts typed into the site (credentials, dates, district,
  deed type) reach only the browser and are not tracked. The switch to English (218--225)
  swallows its exceptions and changes nothing that the model tracks.
\<close>

record env =
  captcha_wait_seconds :: int
  normalise_date :: "string \<Rightarrow> string option"
  driver_starts :: bool
  home_loads :: bool
  login_scripts :: "nat \<Rightarrow> login_script"
  nav :: nav_script
  filter_scripts :: "nat \<Rightarrow> filter_script"
  results_ready :: bool
  pages :: "nat \<Rightarrow> page"
  intake_events :: "nat \<Rightarrow> cache_event"

text \<open>
  How the view ends: one constructor per \<open>return\<close> of the source, and \<open>Crashed\<close> for an
  exception that leaves the view. \<open>Raised\<close> is an exception inside the \<open>try\<close> block.
\<close>

datatype exit_path =
    RenderForm                \<comment> \<open>line 196: not a POST, the form is rendered\<close>
  | InvalidDate               \<comment> \<open>line 210: status 400\<close>
  | LoginExhausted            \<comment> \<open>line 291: status 500\<close>
  | InitialElementsMissing    \<comment> \<open>line 301: status 500\<close>
  | OtherDetailsMissing       \<comment> \<open>line 322: status 500\<close>
  | FilterExhausted           \<comment> \<open>line 398: status 500\<close>
  | Completed                 \<comment> \<open>line 539: status 200\<close>
  | ScrapingFailed            \<comment> \<open>line 544: status 500\<close>
  | Crashed error             \<comment> \<open>no response: the exception leaves the view\<close>

datatype outcome = Returned exit_path | Raised

datatype attempt_result = Passed | Retry | Abort

datatype row_result = RowSaved | RowFailed | RowBreak

text \<open>Lines 202--210: both dates are converted; a missing field raises as well.\<close>

definition parse_dates :: "env \<Rightarrow> request \<Rightarrow> (string \<times> string) option" where
  "parse_dates env request =
     (case post request ''date_from'' of
        None \<Rightarrow> None
      | Some date_from \<Rightarrow>
          (case normalise_date env date_from of
             None \<Rightarrow> None
           | Some date_from_fmt \<Rightarrow>
               (case post request ''date_to'' of
                  None \<Rightarrow> None
                | Some date_too \<Rightarrow>
                    (case normalise_date env date_too of
                       None \<Rightarrow> None
                     | Some date_to_fmt \<Rightarrow> Some (date_from_fmt, date_to_fmt)))))"

text \<open>
  The body of the login loop. Every exception is caught by the handler of the attempt,
  which goes on to the next attempt: the result \<open>False\<close>. The wait is the modelled
  \<open>_wait_for_captcha_value\<close> with the default poll interval.
\<close>

definition login_attempt :: "env \<Rightarrow> nat \<Rightarrow> login_script \<Rightarrow> world \<Rightarrow> (bool \<times> world) option" where
  "login_attempt env run_id sc w =
     (if \<not> prompt_ok sc then Some (False, w)
      else
        let w1 = create_status ''Please solve CAPTCHA #1 in the UI'' True w
        in case wait_for_captcha_value (intake_events env) run_id (captcha_wait_seconds env) 1
                  (slots w1) (sleeps w1) of
             None \<Rightarrow> None
           | Some (captcha_value, c, t) \<Rightarrow>
               let w2 = w1\<lparr>slots := c, sleeps := t\<rparr>
               in if captcha_value = None \<or> captcha_value = Some [] then
                    Some (False, create_status
                      ''CAPTCHA #1 timed out waiting for input. Retrying...'' False w2)
                  else if inputs_found sc < 3 then Some (False, w2)
                  else if \<not> typed_ok sc then Some (False, w2)
                  else if \<not> 2 \<le> buttons_found sc then Some (False, w2)
                  else if \<not> url_changes sc then Some (False, w2)
                  else if url_differs sc then
                    Some (True, create_status ''Captcha #1 solved successfully; logged in.'' False w2)
                  else Some (False, w2))"

text \<open>\<open>for attempt in range(max_attempts)\<close>, left by \<open>break\<close> on success.\<close>

fun login_loop :: "env \<Rightarrow> nat \<Rightarrow> nat \<Rightarrow> nat \<Rightarrow> world \<Rightarrow> (bool \<times> world) option" where
  "login_loop env run_id 0 attempt w = Some (False, w)"
| "login_loop env run_id (Suc n) attempt w =
     (case login_attempt env run_id (login_scripts env attempt) w of
        None \<Rightarrow> None
      | Some (True, w') \<Rightarrow> Some (True, w')
      | Some (False, w') \<Rightarrow> login_loop env run_id n (Suc attempt) w')"

text \<open>
  The body of the filter loop. With too few options the source quits the driver and
  returns from the view (lines 319--322): the result \<open>Abort\<close>.
\<close>

definition filter_attempt ::
  "env \<Rightarrow> nat \<Rightarrow> filter_script \<Rightarrow> world \<Rightarrow> (attempt_result \<times> world) option" where
  "filter_attempt env run_id sc w =
     (if \<not> page_ok sc then Some (Retry, w)
      else if \<not> 2 < options_found sc then Some (Abort, driver_quit w)
      else if \<not> dates_ready sc then Some (Retry, w)
      else
        let w1 = create_status ''Filling District, Date, and Deed Type'' False w
        in if \<not> filled_ok sc then Some (Retry, w1)
           else
             let w2 = create_status ''Please solve CAPTCHA #2 in the UI'' True w1
             in case wait_for_captcha_value (intake_events env) run_id
                       (captcha_wait_seconds env) 1 (slots w2) (sleeps w2) of
                  None \<Rightarrow> None
                | Some (captcha_value_2, c, t) \<Rightarrow>
                    let w3 = w2\<lparr>slots := c, sleeps := t\<rparr>
                    in if captcha_value_2 = None \<or> captcha_value_2 = Some [] then
                         Some (Retry, create_status
                           ''CAPTCHA #2 timed out waiting for input. Retrying...'' False w3)
                       else if \<not> submit_ok sc then Some (Retry, w3)
                       else Some (Passed, create_status ''CAPTCHA #2 solved successfully.'' False w3))"

fun filter_loop ::
  "env \<Rightarrow> nat \<Rightarrow> nat \<Rightarrow> nat \<Rightarrow> world \<Rightarrow> (attempt_result \<times> world) option" where
  "filter_loop env run_id 0 retry w = Some (Retry, w)"
| "filter_loop env run_id (Suc n) retry w =
     (case filter_attempt env run_id (filter_scripts env retry) w of
        None \<Rightarrow> None
      | Some (Retry, w') \<Rightarrow> filter_loop env run_id n (Suc retry) w'
      | Some (r, w') \<Rightarrow> Some (r, w'))"

text \<open>The decimal text of a number, for the f-string of line 424.\<close>

fun show_nat :: "nat \<Rightarrow> string" where
  "show_nat n =
     (if n < 10 then [''0123456789'' ! n]
      else show_nat (n div 10) @ [''0123456789'' ! (n mod 10)])"

declare show_nat.simps [simp del]

text \<open>
  Lines 433--487: the texts are stripped; in the property section a field whose heading
  contains \<open>address\<close> (in any letter case) is replaced by the parsed address fields.
\<close>

definition strip_texts :: "section_texts \<Rightarrow> section_texts" where
  "strip_texts sec = (map py_strip (fst sec), map py_strip (snd sec))"

definition expand_address :: "string list \<Rightarrow> string list \<Rightarrow> (string \<times> string) list" where
  "expand_address headings_4 data_texts_4 =
     concat (map (\<lambda>(heading_100, data_val).
                    if str_in ''address'' (map py_lower heading_100) then parse_address data_val
                    else [(heading_100, data_val)])
                 (zip headings_4 data_texts_4))"

definition all_sections_of :: "detail_tables \<Rightarrow> section_texts list" where
  "all_sections_of t =
     (let final_data_texts_4 =
            expand_address (fst (strip_texts (property_table t)))
                           (snd (strip_texts (property_table t)))
      in [strip_texts (registration t),
          strip_texts (party_from t),
          strip_texts (party_to t),
          (map fst final_data_texts_4, map snd final_data_texts_4),
          strip_texts (khasra t)])"

text \<open>
  The body of the row loop. \<open>RowBreak\<close> is the \<open>break\<close> of line 416, \<open>RowFailed\<close> an
  exception caught by the handler of lines 510--520, \<open>RowSaved\<close> a stored record.
\<close>

definition process_row :: "nat \<Rightarrow> nat \<Rightarrow> row_script \<Rightarrow> world \<Rightarrow> row_result \<times> world" where
  "process_row p i sc w =
     (let w0 = w\<lparr>row_visits := row_visits w @ [(p, i)]\<rparr>
      in case refreshed sc of
           None \<Rightarrow> (RowFailed, w0)
         | Some n \<Rightarrow>
             if n \<le> i then (RowBreak, w0)
             else if \<not> detail_opens sc then (RowFailed, w0)
             else
               let w1 = create_status (''Fetching data of record index '' @ show_nat i) False w0
               in case tables sc of
                    None \<Rightarrow> (RowFailed, w1)
                  | Some t \<Rightarrow>
                      (case save_to_db (all_sections_of t) (save_ok sc) (store w1) of
                         Inl e \<Rightarrow> (RowFailed, w1)
                       | Inr db \<Rightarrow> (RowSaved, w1\<lparr>store := db\<rparr>)))"

fun row_loop :: "nat \<Rightarrow> nat \<Rightarrow> row_script list \<Rightarrow> world \<Rightarrow> world" where
  "row_loop p i [] w = w"
| "row_loop p i (sc # rest) w =
     (case process_row p i sc w of
        (RowBreak, w') \<Rightarrow> w'
      | (r, w') \<Rightarrow> row_loop p (Suc i) rest w')"

text \<open>
  \<open>while True\<close> over the pages. The loop is left by \<open>break\<close> (the result \<open>True\<close>) when
  the next button is missing, carries \<open>disabled\<close> in its class, or an exception occurs in
  the pagination step; it is left by an exception (\<open>False\<close>) when the row list of a page
  cannot be read, since line 406 is outside the inner handlers. On a site whose next
  button never stops the loop does not end: \<open>None\<close>.
\<close>

partial_function (option) page_loop :: "env \<Rightarrow> nat \<Rightarrow> world \<Rightarrow> (bool \<times> world) option" where
  "page_loop env p w =
     (case listing (pages env p) of
        None \<Rightarrow> Some (False, w)
      | Some data_elements \<Rightarrow>
          let w1 = row_loop p 0 data_elements (w\<lparr>page_visits := page_visits w @ [p]\<rparr>);
              next_button = next_ctl (pages env p)
          in if \<not> found next_button then Some (True, w1)
             else if str_in ''disabled''
                       (case class_attr next_button of None \<Rightarrow> [] | Some classes \<Rightarrow> classes)
               then Some (True, w1)
             else if \<not> click_ok next_button then Some (True, w1)
             else if \<not> reload_ok next_button then Some (True, w1)
             else page_loop env (Suc p) w1)"

declare page_loop.simps [code]

text \<open>Lines 400--539.\<close>

definition results_phase :: "env \<Rightarrow> world \<Rightarrow> (outcome \<times> world) option" where
  "results_phase env w =
     (if \<not> results_ready env then Some (Raised, w)
      else case page_loop env 0 w of
             None \<Rightarrow> None
           | Some (False, w') \<Rightarrow> Some (Raised, w')
           | Some (True, w') \<Rightarrow>
               Some (Returned Completed, create_status
                 ''Scraping completed successfully! Go to /get-status/ to review and download from /download-excel/''
                 False w'))"

text \<open>The \<open>try\<close> block after the driver has been created (lines 215--539).\<close>

definition session :: "env \<Rightarrow> nat \<Rightarrow> world \<Rightarrow> (outcome \<times> world) option" where
  "session env run_id w =
     (if \<not> home_loads env then Some (Raised, w)
      else
        let w1 = create_status ''Filling Username And Password To login'' False w
        in case login_loop env run_id 10 0 w1 of
             None \<Rightarrow> None
           | Some (login_success, w2) \<Rightarrow>
               if \<not> login_success then
                 Some (Returned LoginExhausted,
                       driver_quit (create_status
                         ''Login CAPTCHA solving failed after multiple attempts. Try again.''
                         False w2))
               else if \<not> header_ok (nav env) then Some (Raised, w2)
               else if \<not> 2 < links_found (nav env) then
                 Some (Returned InitialElementsMissing, driver_quit w2)
               else if \<not> link_click_ok (nav env) then Some (Raised, w2)
               else if \<not> options_ok (nav env) then Some (Raised, w2)
               else
                 (case filter_loop env run_id 10 0 w2 of
                    None \<Rightarrow> None
                  | Some (Abort, w3) \<Rightarrow> Some (Returned OtherDetailsMissing, w3)
                  | Some (Retry, w3) \<Rightarrow>
                      Some (Returned FilterExhausted,
                            driver_quit (create_status
                              ''CAPTCHA #2 solving failed after multiple attempts. Try again.''
                              False w3))
                  | Some (Passed, w3) \<Rightarrow> results_phase env w3))"

text \<open>
  The view. An exception in the \<open>try\<close> block is answered by the handler of line 541;
  the \<open>finally\<close> block quits the driver on every way out, also after a \<open>return\<close> inside
  the block. When \<open>_driver_from_config()\<close> raises, \<open>driver\<close> is still unbound in the
  \<open>finally\<close> block, and \<open>UnboundLocalError\<close> leaves the view.
\<close>

definition trigger_scrape ::
  "env \<Rightarrow> request \<Rightarrow> nat \<Rightarrow> world \<Rightarrow> (exit_path \<times> world) option" where
  "trigger_scrape env request run_id w =
     (if http_method request \<noteq> ''POST'' then Some (RenderForm, w)
      else case parse_dates env request of
             None \<Rightarrow>
               Some (InvalidDate, create_status ''Invalid date format. Expected YYYY-MM-DD.'' False w)
           | Some dates \<Rightarrow>
               if \<not> driver_starts env then
                 Some (Crashed UnboundLocalError,
                       create_status
                         ''Scraping failed due to an error. Please check logs and try again.''
                         False w)
               else
                 (case session env run_id w of
                    None \<Rightarrow> None
                  | Some (Returned e, w') \<Rightarrow> Some (e, driver_quit w')
                  | Some (Raised, w') \<Rightarrow>
                      Some (ScrapingFailed,
                            driver_quit (create_status
                              ''Scraping failed due to an error. Please check logs and try again.''
                              False w'))))"

text \<open>
  The words of the claims. Processing of a row throws: one of the steps up to the store
  raises. A row succeeds: it is found, opened, read and stored. The pagination step stops
  the loop. An early exit is a \<open>return\<close> from inside the session that quits the driver
  itself. A browser session is opened.
\<close>

definition row_raises :: "nat \<Rightarrow> row_script \<Rightarrow> bool" where
  "row_raises i sc =
     (case refreshed sc of
        None \<Rightarrow> True
      | Some n \<Rightarrow> i < n \<and> (\<not> detail_opens sc \<or> tables sc = None \<or> \<not> save_ok sc))"

definition row_succeeds :: "nat \<Rightarrow> row_script \<Rightarrow> bool" where
  "row_succeeds i sc =
     (case refreshed sc of
        None \<Rightarrow> False
      | Some n \<Rightarrow> i < n \<and> detail_opens sc \<and> tables sc \<noteq> None \<and> save_ok sc)"

definition pagination_stops :: "next_script \<Rightarrow> bool" where
  "pagination_stops nx =
     (\<not> found nx \<or>
      str_in ''disabled'' (case class_attr nx of None \<Rightarrow> [] | Some classes \<Rightarrow> classes) \<or>
      \<not> click_ok nx \<or> \<not> reload_ok nx)"

definition early_exit :: "exit_path \<Rightarrow> bool" where
  "early_exit e =
     (e = LoginExhausted \<or> e = InitialElementsMissing \<or> e = OtherDetailsMissing \<or>
      e = FilterExhausted)"

definition session_opened :: "env \<Rightarrow> request \<Rightarrow> bool" where
  "session_opened env request =
     (http_method request = ''POST'' \<and> parse_dates env request \<noteq> None \<and> driver_starts env)"

text \<open>Concrete runs: a site of two pages, an operator who answers, and one who does not.\<close>

definition scrape_post :: request where
  "scrape_post =
     \<lparr>http_method = ''POST'',
      post = [''date_from'' \<mapsto> ''2023-01-01'', ''date_to'' \<mapsto> ''2023-01-31'']\<rparr>"

definition blank_world :: world where
  "blank_world =
     \<lparr>slots = Map.empty, sleeps = 0, ledger = [], store = [], quit_calls = 0,
      row_visits = [], page_visits = []\<rparr>"

definition sample_tables :: detail_tables where
  "sample_tables =
     \<lparr>registration = ([''No ''], ['' 7'']),
      party_from = ([''From''], [''A'']),
      party_to = ([''To''], [''B'']),
      property_table = ([''Address'', ''Use''], [''pin-462001'', ''Farm'']),
      khasra = ([''Plot''], [''3''])\<rparr>"

definition good_row :: row_script where
  "good_row = \<lparr>refreshed = Some 3, detail_opens = True, tables = Some sample_tables, save_ok = True\<rparr>"

definition stale_row :: row_script where
  "stale_row = \<lparr>refreshed = Some 3, detail_opens = False, tables = None, save_ok = True\<rparr>"

definition three_rows :: "row_script list" where
  "three_rows = [good_row, stale_row, good_row]"

definition two_pages :: "nat \<Rightarrow> page" where
  "two_pages p =
     (if p = 0 then
        \<lparr>listing = Some three_rows,
         next_ctl = \<lparr>found = True, class_attr = Some ''mat-paginator-navigation-next'',
                     click_ok = True, reload_ok = True\<rparr>\<rparr>
      else
        \<lparr>listing = Some [good_row],
         next_ctl = \<lparr>found = True,
                     class_attr = Some ''mat-paginator-navigation-next mat-button-disabled'',
                     click_ok = True, reload_ok = True\<rparr>\<rparr>)"

definition answered_env :: env where
  "answered_env =
     \<lparr>captcha_wait_seconds = 2,
      normalise_date = (\<lambda>s. if s = ''2023-01-01'' then Some ''01-01-2023''
                            else if s = ''2023-01-31'' then Some ''31-01-2023'' else None),
      driver_starts = True,
      home_loads = True,
      login_scripts = (\<lambda>attempt. \<lparr>prompt_ok = True, inputs_found = 3, typed_ok = True,
                                   buttons_found = 2, url_changes = True, url_differs = True\<rparr>),
      nav = \<lparr>header_ok = True, links_found = 3, link_click_ok = True, options_ok = True\<rparr>,
      filter_scripts = (\<lambda>retry. \<lparr>page_ok = True, options_found = 3, dates_ready = True,
                                  filled_ok = True, submit_ok = True\<rparr>),
      results_ready = True,
      pages = two_pages,
      intake_events = (\<lambda>k. Intake (Some 1) captcha_post)\<rparr>"

definition unanswered_env :: env where
  "unanswered_env = answered_env\<lparr>intake_events := (\<lambda>k. Quiet)\<rparr>"

section \<open>Properties of \<open>parse_address\<close>\<close>

lemma parse_address_fields:
  "parse_address addr =
     [(''Ward/Colony'', field_of (re_search pat_ward_colony addr)),
      (''District'', field_of (re_search pat_district addr)),
      (''Village'', field_of (re_search pat_village addr)),
      (''Sub-Area/Road'', field_of (re_search pat_sub_area addr)),
      (''Tehsil/Locality'', field_of (re_search pat_tehsil addr)),
      (''PIN Code'', field_of (re_search pat_pin addr)),
      (''Landmark'', field_of (re_search pat_landmark addr)),
      (''State'', if str_in ''Madhya Pradesh'' addr then ''Madhya Pradesh'' else []),
      (''Country'', if str_in ''India'' addr then ''India'' else [])]"
  by (simp add: parse_address_def patterns_def)

lemma lookup_pin_code:
  "map_of (parse_address addr) ''PIN Code'' = Some (field_of (re_search pat_pin addr))"
  by (simp add: parse_address_fields)

lemma lookup_district:
  "map_of (parse_address addr) ''District'' = Some (field_of (re_search pat_district addr))"
  by (simp add: parse_address_fields)

subsection \<open>The PIN pattern\<close>

lemma lit_rest_Some:
  "lit_rest l s = Some r \<longleftrightarrow> (\<exists>p. s = p @ r \<and> map py_lower p = map py_lower l)"
proof (induction l s rule: lit_rest.induct)
  case (1 s)
  then show ?case by auto
next
  case (2 p ps)
  then show ?case by auto
next
  case (3 p ps c cs)
  show ?case
  proof (cases "ci_eq p c")
    case True
    then show ?thesis using 3 
      apply (simp add: ci_eq_def)
      apply (auto simp: Cons_eq_append_conv)
      done
  next
    case False
    then show ?thesis by (auto simp: ci_eq_def Cons_eq_append_conv)
  qed
qed

lemma lower_pin: "map py_lower ''pin'' = ''pin''"
  by (simp add: py_lower_def upper_chars_def lower_chars_def)

lemma lit_rest_pin:
  "lit_rest ''pin'' s = Some r \<longleftrightarrow> (\<exists>p. s = p @ r \<and> map py_lower p = ''pin'')"
  using lit_rest_Some[of "''pin''" s r] by (simp only: lower_pin)

lemma lower_dash: "py_lower CHR ''-'' = CHR ''-''"
  by (simp add: py_lower_def upper_chars_def lower_chars_def)

lemma digit_not_dash: "py_isdigit c \<Longrightarrow> py_lower c \<noteq> CHR ''-''"
  by (auto simp: py_isdigit_def py_lower_def upper_chars_def lower_chars_def)

lemma six_group:
  "match_atoms [Rep py_isdigit 6 (Some 6)] s =
     (if six_digits (take 6 s) then [drop 6 s] else [])"
proof -
  have "6 \<le> length (takeWhile py_isdigit s) \<longleftrightarrow> six_digits (take 6 s)"
  proof
    assume a: "6 \<le> length (takeWhile py_isdigit s)"
    have "take 6 s = take 6 (takeWhile py_isdigit s @ dropWhile py_isdigit s)"
      by (simp only: takeWhile_dropWhile_id)
    also have "\<dots> = take 6 (takeWhile py_isdigit s)"
      using a by (simp only: take_append) simp
    finally have t: "take 6 s = take 6 (takeWhile py_isdigit s)" .
    have "\<forall>c \<in> set (takeWhile py_isdigit s). py_isdigit c" by (auto dest: set_takeWhileD)
    then have "\<forall>c \<in> set (take 6 s). py_isdigit c" unfolding t by (auto dest: in_set_takeD)
    moreover have "length (take 6 s) = 6" unfolding t using a by simp
    ultimately show "six_digits (take 6 s)" by (simp add: six_digits_def list_all_iff)
  next
    assume "six_digits (take 6 s)"
    then have l: "length (take 6 s) = 6" and d: "\<forall>c \<in> set (take 6 s). py_isdigit c"
      by (simp_all add: six_digits_def list_all_iff)
    have "takeWhile py_isdigit (take 6 s @ drop 6 s) = take 6 s @ takeWhile py_isdigit (drop 6 s)"
      using d by (rule takeWhile_append2[OF ballE]) auto
    then have "length (takeWhile py_isdigit s) = 6 + length (takeWhile py_isdigit (drop 6 s))"
      using l by simp
    then show "6 \<le> length (takeWhile py_isdigit s)" by simp
  qed
  then show ?thesis by (auto simp: Let_def min_def)
qed



lemma pin_group:
  "match_pieces [Group [Rep py_isdigit 6 (Some 6)]] g s =
     (if six_digits (take 6 s) then [(Some (take 6 s), drop 6 s)] else [])"
proof (cases "six_digits (take 6 s)")
  case True
  then have "6 \<le> length s" by (simp add: six_digits_def min_def split: if_splits)
  then have "take (length s - (length s - 6)) s = take 6 s" by simp
  with True show ?thesis by (simp only: match_pieces.simps six_group) simp
next
  case False
  then show ?thesis by (simp only: match_pieces.simps six_group) simp
qed

lemma re_match_pin_eq:
  "re_match pat_pin s =
     (case lit_rest ''pin'' s of
        None \<Rightarrow> None
      | Some r \<Rightarrow>
          if r \<noteq> [] \<and> ci_eq CHR ''-'' (hd r) \<and> six_digits (take 6 (tl r))
          then Some (Some (take 6 (tl r)))
          else if six_digits (take 6 r) then Some (Some (take 6 r)) else None)"
proof (cases "lit_rest ''pin'' s")
  case None
  then show ?thesis by (simp add: re_match_def pat_pin_def)
next
  case (Some r)
  show ?thesis
  proof (cases r)
    case Nil
    with Some show ?thesis
      by (simp add: re_match_def pat_pin_def pin_group del: match_pieces.simps(3))
  next
    case (Cons c cs)
    with Some show ?thesis
      by (simp add: re_match_def pat_pin_def pin_group del: match_pieces.simps(3))
  qed
qed

lemma pin_facts:
  fixes l :: string and dash :: char
  assumes "l = ''pin''" "dash = CHR ''-''"
  shows "\<And>s. re_match pat_pin s =
     (case lit_rest l s of
        None \<Rightarrow> None
      | Some r \<Rightarrow>
          if r \<noteq> [] \<and> py_lower (hd r) = dash \<and> six_digits (take 6 (tl r))
          then Some (Some (take 6 (tl r)))
          else if six_digits (take 6 r) then Some (Some (take 6 r)) else None)"
    and "\<And>s r. lit_rest l s = Some r \<longleftrightarrow> (\<exists>p. s = p @ r \<and> map py_lower p = l)"
    and "\<And>p. is_pin_marker p \<longleftrightarrow> map py_lower p = l \<or> map py_lower p = l @ [dash]"
    and "\<And>c. py_isdigit c \<Longrightarrow> py_lower c \<noteq> dash"
  unfolding assms
     apply (simp only: re_match_pin_eq ci_eq_def lower_dash eq_commute[of "CHR ''-''"])
    apply (rule lit_rest_pin)
   apply (simp add: is_pin_marker_def)
  apply (erule digit_not_dash)
  done

lemma re_match_pin_fwd:
  assumes m: "re_match pat_pin s = Some g"
  shows "\<exists>p d rest. s = p @ d @ rest \<and> is_pin_marker p \<and> six_digits d \<and> g = Some d"
proof -
  define l :: string where "l = ''pin''"
  define dash where "dash = CHR ''-''"
  note f = pin_facts[OF l_def dash_def]
  from m obtain r where r: "lit_rest l s = Some r"
    unfolding f(1) by (cases "lit_rest l s") simp_all
  then obtain p3 where p3: "s = p3 @ r" "map py_lower p3 = l"
    unfolding f(2) by blast
  show ?thesis
  proof (cases "r \<noteq> [] \<and> py_lower (hd r) = dash \<and> six_digits (take 6 (tl r))")
    case True
    then obtain c cs where rc: "r = c # cs" by (cases r) auto
    with True have c: "py_lower c = dash" and six: "six_digits (take 6 cs)"
      by simp_all
    from m r True have "g = Some (take 6 (tl r))" unfolding f(1) by simp
    then have g: "g = Some (take 6 cs)" using rc by simp
    have "s = (p3 @ [c]) @ take 6 cs @ drop 6 cs" using p3 rc by simp
    moreover have "is_pin_marker (p3 @ [c])" unfolding f(3) using p3 c by simp
    ultimately show ?thesis using six g by blast
  next
    case False
    with m r have "(if six_digits (take 6 r) then Some (Some (take 6 r)) else None) = Some g"
      unfolding f(1) by simp
    then have six: "six_digits (take 6 r)" and g: "g = Some (take 6 r)"
      by (simp_all split: if_splits)
    have "s = p3 @ take 6 r @ drop 6 r" using p3 by simp
    moreover have "is_pin_marker p3" unfolding f(3) using p3 by simp
    ultimately show ?thesis using six g by blast
  qed
qed

lemma re_match_pin_bwd:
  assumes s: "s = p @ d @ rest" and p: "is_pin_marker p" and d: "six_digits d"
  shows "re_match pat_pin s = Some (Some d)"
proof -
  define l :: string where "l = ''pin''"
  define dash where "dash = CHR ''-''"
  note f = pin_facts[OF l_def dash_def]
  from d have ld: "length d = 6" and dd: "\<forall>c\<in>set d. py_isdigit c"
    by (simp_all add: six_digits_def list_all_iff)
  from ld obtain d0 ds where dc: "d = d0 # ds" by (cases d) auto
  have t6: "take 6 (d @ rest) = d" using ld by simp
  from p have "map py_lower p = l \<or> map py_lower p = l @ [dash]" unfolding f(3) .
  then show ?thesis
  proof
    assume "map py_lower p = l"
    then have r: "lit_rest l s = Some (d @ rest)"
      using s unfolding f(2) by blast
    have "py_isdigit d0" using dd dc by simp
    then have nd: "py_lower (hd (d @ rest)) \<noteq> dash"
      using f(4)[of d0] dc by simp
    show ?thesis unfolding f(1) r using nd t6 d by simp
  next
    assume a: "map py_lower p = l @ [dash]"
    then obtain p3 c where pc: "p = p3 @ [c]"
      by (cases p rule: rev_cases) auto
    with a have p3: "map py_lower p3 = l" and c: "py_lower c = dash" by auto
    have "s = p3 @ (c # d @ rest)" using s pc by simp
    then have r: "lit_rest l s = Some (c # d @ rest)"
      using p3 unfolding f(2) by blast
    show ?thesis unfolding f(1) r using c t6 d by simp
  qed
qed

lemma re_match_pin_None: "re_match pat_pin s = None \<longleftrightarrow> \<not> pin_starts s"
proof
  assume n: "re_match pat_pin s = None"
  show "\<not> pin_starts s"
  proof
    assume "pin_starts s"
    then obtain p d rest where "s = p @ d @ rest" "is_pin_marker p" "six_digits d"
      unfolding pin_starts_def by blast
    then have "re_match pat_pin s = Some (Some d)" by (rule re_match_pin_bwd)
    with n show False by simp
  qed
next
  assume n: "\<not> pin_starts s"
  show "re_match pat_pin s = None"
  proof (cases "re_match pat_pin s")
    case None
    then show ?thesis .
  next
    case (Some g)
    then have "pin_starts s" unfolding pin_starts_def using re_match_pin_fwd by blast
    with n show ?thesis by simp
  qed
qed

subsection \<open>\<open>re.search\<close> reports the leftmost match\<close>

lemma re_search_None:
  "re_search pat s = None \<longleftrightarrow> (\<forall>k\<le>length s. re_match pat (drop k s) = None)"
proof (induction s)
  case Nil
  then show ?case by simp
next
  case (Cons c cs)
  have "(\<forall>k\<le>length (c # cs). re_match pat (drop k (c # cs)) = None) \<longleftrightarrow>
        re_match pat (c # cs) = None \<and> (\<forall>k\<le>length cs. re_match pat (drop k cs) = None)"
    (is "?L \<longleftrightarrow> ?R")
  proof
    assume l: ?L
    then have "re_match pat (drop 0 (c # cs)) = None" by blast
    moreover have "\<forall>k\<le>length cs. re_match pat (drop k cs) = None"
    proof (intro allI impI)
      fix k assume "k \<le> length cs"
      then have "re_match pat (drop (Suc k) (c # cs)) = None" using l by auto
      then show "re_match pat (drop k cs) = None" by simp
    qed
    ultimately show ?R by simp
  next
    assume r: ?R
    show ?L
    proof (intro allI impI)
      fix k assume "k \<le> length (c # cs)"
      then show "re_match pat (drop k (c # cs)) = None" using r by (cases k) auto
    qed
  qed
  with Cons show ?case by (auto split: option.splits)
qed

lemma re_search_first:
  "k \<le> length s \<Longrightarrow> re_match pat (drop k s) = Some g \<Longrightarrow>
   (\<forall>j<k. re_match pat (drop j s) = None) \<Longrightarrow> re_search pat s = Some g"
proof (induction s arbitrary: k)
  case Nil
  then show ?case by simp
next
  case (Cons c cs)
  show ?case
  proof (cases k)
    case 0
    with Cons.prems show ?thesis by simp
  next
    case (Suc k')
    with Cons.prems have 0: "re_match pat (c # cs) = None" by fastforce
    have "\<forall>j<k'. re_match pat (drop j cs) = None"
    proof (intro allI impI)
      fix j assume "j < k'"
      then have "re_match pat (drop (Suc j) (c # cs)) = None" using Cons.prems Suc by blast
      then show "re_match pat (drop j cs) = None" by simp
    qed
    then have "re_search pat cs = Some g" using Cons.IH[of k'] Cons.prems Suc by simp
    with 0 show ?thesis by simp
  qed
qed


lemma re_search_Some:
  "re_search pat s = Some g \<Longrightarrow> \<exists>k\<le>length s. re_match pat (drop k s) = Some g"
proof (induction s)
  case Nil
  then show ?case by simp
next
  case (Cons c cs)
  show ?case
  proof (cases "re_match pat (c # cs)")
    case None
    with Cons.prems have "re_search pat cs = Some g" by simp
    then obtain k where "k \<le> length cs" "re_match pat (drop k cs) = Some g"
      using Cons.IH by blast
    then have "Suc k \<le> length (c # cs) \<and> re_match pat (drop (Suc k) (c # cs)) = Some g"
      by simp
    then show ?thesis by blast
  next
    case (Some g')
    with Cons.prems have "re_match pat (drop 0 (c # cs)) = Some g" by simp
    then show ?thesis by blast
  qed
qed

section \<open>Claims about \<open>parse_address\<close>\<close>

text \<open>
  C3. For every input string, the empty string included, \<open>parse_address\<close> returns a
  mapping with exactly the nine fixed keys, in the fixed order and without repetition; no
  key is omitted, and a field whose pattern (or literal, for State and Country) does not
  occur in the address is mapped to the empty string.
\<close>

theorem parse_address_nine_keys:
  "map fst (parse_address addr) = address_keys \<and>
   length (parse_address addr) = 9 \<and>
   distinct (map fst (parse_address addr)) \<and>
   (\<forall>k \<in> set address_keys. \<exists>v. map_of (parse_address addr) k = Some v) \<and>
   (\<forall>(k, pat) \<in> set patterns.
      re_search pat addr = None \<longrightarrow> map_of (parse_address addr) k = Some []) \<and>
   (\<not> str_in ''Madhya Pradesh'' addr \<longrightarrow> map_of (parse_address addr) ''State'' = Some []) \<and>
   (\<not> str_in ''India'' addr \<longrightarrow> map_of (parse_address addr) ''Country'' = Some []) \<and>
   parse_address [] = map (\<lambda>k. (k, [])) address_keys"
proof (intro conjI)
  show "map fst (parse_address addr) = address_keys"
    by (simp add: parse_address_fields address_keys_def)
  show "length (parse_address addr) = 9"
    by (simp add: parse_address_fields)
  show "distinct (map fst (parse_address addr))"
    by (simp add: parse_address_fields)
  show "\<forall>k \<in> set address_keys. \<exists>v. map_of (parse_address addr) k = Some v"
    by (simp add: parse_address_fields address_keys_def)
  show "\<forall>(k, pat) \<in> set patterns.
      re_search pat addr = None \<longrightarrow> map_of (parse_address addr) k = Some []"
    by (simp add: parse_address_fields patterns_def field_of_def)
  show "\<not> str_in ''Madhya Pradesh'' addr \<longrightarrow> map_of (parse_address addr) ''State'' = Some []"
    by (simp add: parse_address_fields)
  show "\<not> str_in ''India'' addr \<longrightarrow> map_of (parse_address addr) ''Country'' = Some []"
    by (simp add: parse_address_fields)
  show "parse_address [] = map (\<lambda>k. (k, [])) address_keys"
    by (simp add: parse_address_fields address_keys_def field_of_def re_match_def
        pat_ward_colony_def pat_district_def pat_village_def pat_sub_area_def pat_tehsil_def
        pat_pin_def pat_landmark_def)
qed

theorem parse_address_nine_keys_witness:
  "map fst (parse_address ''Bhopal'') = address_keys \<and>
   map_of (parse_address ''Bhopal'') ''State'' = Some [] \<and>
   map_of (parse_address ''Bhopal'') ''Country'' = Some [] \<and>
   parse_address [] = map (\<lambda>k. (k, [])) address_keys"
proof -
  have "\<not> str_in ''Madhya Pradesh'' ''Bhopal''" by simp
  moreover have "\<not> str_in ''India'' ''Bhopal''" by simp
  ultimately show ?thesis using parse_address_nine_keys[of "''Bhopal''"] by blast
qed

lemma lower_pin_dash: "map py_lower ''PIN-'' = ''pin-''"
  by code_simp

text \<open>
  C4. When the address contains a 6-digit sequence preceded by \<open>pin\<close> or \<open>pin-\<close> (in
  any letter case), \<open>PIN Code\<close> is that 6-digit sequence: \<open>re.search\<close> reports the
  leftmost occurrence, so the field is the sequence of the occurrence before which no
  other one starts, and every address with an occurrence gets the digits of one of its
  occurrences. When the address has no occurrence, \<open>PIN Code\<close> is the empty string.
\<close>

theorem pin_code_leftmost:
  "(addr = pre @ p @ d @ rest \<and> is_pin_marker p \<and> six_digits d \<and>
      (\<forall>k<length pre. \<not> pin_starts (drop k addr))
      \<longrightarrow> map_of (parse_address addr) ''PIN Code'' = Some d) \<and>
   ((\<exists>k\<le>length addr. pin_starts (drop k addr))
      \<longrightarrow> (\<exists>pre p d rest. addr = pre @ p @ d @ rest \<and> is_pin_marker p \<and> six_digits d \<and>
             map_of (parse_address addr) ''PIN Code'' = Some d)) \<and>
   ((\<forall>k\<le>length addr. \<not> pin_starts (drop k addr))
      \<longrightarrow> map_of (parse_address addr) ''PIN Code'' = Some [])"
proof (intro conjI impI)
  assume a: "addr = pre @ p @ d @ rest \<and> is_pin_marker p \<and> six_digits d \<and>
      (\<forall>k<length pre. \<not> pin_starts (drop k addr))"
  then have eq: "addr = pre @ p @ d @ rest" and mk: "is_pin_marker p" and six: "six_digits d"
    and nl: "\<forall>k<length pre. \<not> pin_starts (drop k addr)" by blast+
  have dr: "drop (length pre) addr = p @ d @ rest" using eq by simp
  have here: "re_match pat_pin (drop (length pre) addr) = Some (Some d)"
    using dr mk six by (rule re_match_pin_bwd)
  have before: "\<forall>j<length pre. re_match pat_pin (drop j addr) = None"
    using nl by (simp only: re_match_pin_None)
  have le: "length pre \<le> length addr" using eq by simp
  have "re_search pat_pin addr = Some (Some d)"
    using le here before by (rule re_search_first)
  then show "map_of (parse_address addr) ''PIN Code'' = Some d"
    by (simp only: lookup_pin_code field_of_def option.case)
next
  assume "\<exists>k\<le>length addr. pin_starts (drop k addr)"
  then have "\<not> (\<forall>k\<le>length addr. re_match pat_pin (drop k addr) = None)"
    by (simp only: re_match_pin_None) blast
  then have "re_search pat_pin addr \<noteq> None" by (simp only: re_search_None simp_thms)
  then obtain g where g: "re_search pat_pin addr = Some g" by blast
  then obtain k where k: "k \<le> length addr" "re_match pat_pin (drop k addr) = Some g"
    using re_search_Some by blast
  then obtain p d rest where o: "drop k addr = p @ d @ rest" "is_pin_marker p" "six_digits d"
    "g = Some d" using re_match_pin_fwd by blast
  have "addr = take k addr @ p @ d @ rest" using o(1) append_take_drop_id[of k addr] by simp
  moreover have "map_of (parse_address addr) ''PIN Code'' = Some d"
    using g o(4) by (simp only: lookup_pin_code field_of_def option.case)
  ultimately show "\<exists>pre p d rest. addr = pre @ p @ d @ rest \<and> is_pin_marker p \<and> six_digits d \<and>
             map_of (parse_address addr) ''PIN Code'' = Some d"
    using o(2,3) by blast
next
  assume "\<forall>k\<le>length addr. \<not> pin_starts (drop k addr)"
  then have "\<forall>k\<le>length addr. re_match pat_pin (drop k addr) = None"
    by (simp only: re_match_pin_None)
  then have "re_search pat_pin addr = None"
    by (simp only: re_search_None)
  then show "map_of (parse_address addr) ''PIN Code'' = Some []"
    by (simp only: lookup_pin_code field_of_def option.case)
qed

theorem pin_code_leftmost_witness:
  "map_of (parse_address ''PIN-462001 Bhopal'') ''PIN Code'' = Some ''462001'' \<and>
   map_of (parse_address ''Bhopal'') ''PIN Code'' = Some []"
proof -
  have m: "is_pin_marker ''PIN-''" unfolding is_pin_marker_def lower_pin_dash by simp
  have d: "six_digits ''462001''" by (simp add: six_digits_def py_isdigit_def)
  have e: "''PIN-462001 Bhopal'' = [] @ ''PIN-'' @ ''462001'' @ '' Bhopal''" by simp
  have n: "\<forall>k<length ([]::string). \<not> pin_starts (drop k ''PIN-462001 Bhopal'')" by simp
  have 1: "map_of (parse_address ''PIN-462001 Bhopal'') ''PIN Code'' = Some ''462001''"
    by (rule pin_code_leftmost[of "''PIN-462001 Bhopal''" "[]" "''PIN-''" "''462001''" "'' Bhopal''",
          THEN conjunct1, THEN mp, OF conjI[OF e conjI[OF m conjI[OF d n]]]])
  have "re_search pat_pin ''Bhopal'' = None"
    by code_simp
  then have "\<forall>k\<le>length ''Bhopal''. \<not> pin_starts (drop k ''Bhopal'')"
    by (simp only: re_search_None re_match_pin_None)
  then have 2: "map_of (parse_address ''Bhopal'') ''PIN Code'' = Some []"
    by (rule pin_code_leftmost[of "''Bhopal''", THEN conjunct2, THEN conjunct2, THEN mp])
  from 1 2 show ?thesis by (rule conjI)
qed

text \<open>
  C5. The source spells the district pattern \<open>Distirct\<close>. An address that reads
  \<open>District: Bhopal, ...\<close> therefore yields the empty \<open>District\<close> field, while the
  same address with the pattern's own spelling yields \<open>Bhopal\<close>.
\<close>

theorem district_spelling_misses:
  "map_of (parse_address ''District: Bhopal, Madhya Pradesh'') ''District'' = Some [] \<and>
   map_of (parse_address ''Distirct: Bhopal, Madhya Pradesh'') ''District'' = Some ''Bhopal''"
proof -
  have 1: "re_search pat_district ''District: Bhopal, Madhya Pradesh'' = None"
    by code_simp
  have 2: "re_search pat_district ''Distirct: Bhopal, Madhya Pradesh'' = Some (Some ''Bhopal'')"
    by code_simp
  show ?thesis unfolding lookup_district 1 2 by (simp add: field_of_def)
qed

section \<open>Claims about \<open>save_to_db\<close>\<close>

lemma update_fresh: "k \<notin> fst ` set d \<Longrightarrow> AList.update k v d = d @ [(k, v)]"
  by (induction d) auto

lemma foldl_update_distinct:
  "distinct (map fst (acc @ ps)) \<Longrightarrow>
   foldl (\<lambda>d (k, v). AList.update k v d) acc ps = acc @ ps"
proof (induction ps arbitrary: acc)
  case Nil
  then show ?case by simp
next
  case (Cons p ps)
  obtain k v where p: "p = (k, v)" by (cases p)
  from Cons.prems p have fresh: "k \<notin> fst ` set acc" by auto
  from Cons.prems p have "distinct (map fst ((acc @ [(k, v)]) @ ps))" by auto
  then have "foldl (\<lambda>d (k, v). AList.update k v d) (acc @ [(k, v)]) ps = (acc @ [(k, v)]) @ ps"
    by (rule Cons.IH)
  then show ?case using fresh p by (simp add: update_fresh)
qed

lemma dict_of_distinct: "distinct (map fst ps) \<Longrightarrow> dict_of ps = ps"
  using foldl_update_distinct[of "[]" ps] by (simp add: dict_of_def)

lemma foldl_update_keys:
  "fst ` set (foldl (\<lambda>d (k, v). AList.update k v d) acc ps) = fst ` set acc \<union> fst ` set ps"
proof (induction ps arbitrary: acc)
  case Nil
  then show ?case by simp
next
  case (Cons p ps)
  obtain k v where p: "p = (k, v)" by (cases p)
  have "fst ` set (foldl (\<lambda>d (k, v). AList.update k v d) (AList.update k v acc) ps) =
        fst ` set (AList.update k v acc) \<union> fst ` set ps"
    by (rule Cons.IH)
  then show ?case unfolding p by (simp add: AList.dom_update)
qed

lemma foldl_update_distinct_keys:
  "distinct (map fst acc) \<Longrightarrow> distinct (map fst (foldl (\<lambda>d (k, v). AList.update k v d) acc ps))"
  by (induction ps arbitrary: acc) (auto simp: AList.distinct_update split: prod.splits)

lemma foldl_update_map_of:
  "map_of (foldl (\<lambda>d (k, v). AList.update k v d) acc ps) = map_of acc ++ map_of (rev ps)"
  by (induction ps arbitrary: acc) (auto simp: AList.update_conv' map_add_upd_left split: prod.splits)

lemma zip_shorter:
  "zip ls vs = zip (take (min (length ls) (length vs)) ls) (take (min (length ls) (length vs)) vs)"
  by (metis take_zip zip_eq_conv length_zip take_all order_refl min.commute take_zip)


lemma dict_of_keys: "fst ` set (dict_of ps) = fst ` set ps"
  by (simp add: dict_of_def foldl_update_keys)

lemma dict_of_distinct_keys: "distinct (map fst (dict_of ps))"
  by (simp add: dict_of_def foldl_update_distinct_keys)

lemma dict_of_map_of: "map_of (dict_of ps) = map_of (rev ps)"
  by (simp add: dict_of_def foldl_update_map_of)

lemma dict_of_length: "length (dict_of ps) \<le> length ps"
proof -
  have "length (dict_of ps) = card (fst ` set (dict_of ps))"
    using dict_of_distinct_keys[of ps] by (metis distinct_card length_map set_map)
  also have "\<dots> = card (fst ` set ps)" by (simp only: dict_of_keys)
  also have "\<dots> \<le> card (set ps)" by (rule card_image_le) simp
  also have "\<dots> \<le> length ps" by (rule card_length)
  finally show ?thesis .
qed

lemma save_to_db_stored:
  assumes "save_to_db secs db_ok db = Inr db'" and "j < 5"
  shows "\<exists>r. db' = db @ [r] \<and> stored_sections r ! j = section_dict (secs ! j)"
proof -
  from assms(2) have "j = 0 \<or> j = 1 \<or> j = 2 \<or> j = 3 \<or> j = 4" by arith
  with assms(1) show ?thesis
    by (auto simp: save_to_db_def stored_sections_def split: if_splits)
qed

text \<open>
  C6. When the label list and the value list of a section differ in length, the stored
  mapping is built from the first \<open>n\<close> labels and the first \<open>n\<close> values only, \<open>n\<close> the
  shorter length: its keys are those \<open>n\<close> labels, it has at most \<open>n\<close> entries (nothing is
  padded), a label maps to the value at the label's last position below \<open>n\<close>, and with
  distinct labels the mapping is exactly the list of pairs (label \<open>i\<close>, value \<open>i\<close>), \<open>i < n\<close>.
\<close>

theorem save_to_db_pairs_to_shorter:
  assumes "save_to_db secs db_ok db = Inr db'" and "j < 5" and "secs ! j = (ls, vs)"
    and "n = min (length ls) (length vs)"
  shows "\<exists>r. db' = db @ [r] \<and>
           stored_sections r ! j = dict_of (zip (take n ls) (take n vs)) \<and>
           fst ` set (stored_sections r ! j) = set (take n ls) \<and>
           length (stored_sections r ! j) \<le> n \<and>
           map_of (stored_sections r ! j) = map_of (rev (zip (take n ls) (take n vs))) \<and>
           (distinct (take n ls) \<longrightarrow> stored_sections r ! j = zip (take n ls) (take n vs))"
proof -
  from assms(1,2) obtain r where r: "db' = db @ [r]"
    "stored_sections r ! j = section_dict (secs ! j)"
    using save_to_db_stored by blast
  let ?ps = "zip (take n ls) (take n vs)"
  have len: "length (take n ls) = length (take n vs)" using assms(4) by simp
  have z: "zip ls vs = ?ps" unfolding assms(4) by (rule zip_shorter)
  have d: "stored_sections r ! j = dict_of ?ps"
    using r(2) assms(3) z by (simp add: section_dict_def)
  have fz: "map fst ?ps = take n ls" using len by (rule map_fst_zip)
  have k: "fst ` set (dict_of ?ps) = set (take n ls)"
    unfolding dict_of_keys using fz by (metis set_map)
  have l: "length (dict_of ?ps) \<le> n"
    using dict_of_length[of ?ps] assms(4) by simp
  have dd: "distinct (take n ls) \<longrightarrow> dict_of ?ps = ?ps"
    using dict_of_distinct[of ?ps] fz by simp
  show ?thesis using r(1) d k l dd dict_of_map_of[of ?ps] by simp
qed

theorem save_to_db_pairs_to_shorter_witness:
  "\<exists>r. save_to_db sample_sections True [] = Inr [r] \<and>
       property_details r = [(''Area'', ''12''), (''Use'', ''Farm'')] \<and>
       fst ` set (property_details r) = {''Area'', ''Use''} \<and>
       length (property_details r) \<le> 2"
proof -
  have s: "save_to_db sample_sections True [] =
      Inr [\<lparr>registration_details = [(''No'', ''7'')], seller_details = [(''From'', ''A'')],
            buyer_details = [(''To'', ''B'')],
            property_details = [(''Area'', ''12''), (''Use'', ''Farm'')],
            khasra_details = [(''Plot'', ''3'')]\<rparr>]"
    by (simp add: save_to_db_def sample_sections_def section_dict_def dict_of_def)
  have j: "(3::nat) < 5" by simp
  have e: "sample_sections ! 3 = ([''Area'', ''Use'', ''Zone''], [''12'', ''Farm''])"
    by (simp add: sample_sections_def)
  have n: "(2::nat) = min (length [''Area'', ''Use'', ''Zone'']) (length [''12'', ''Farm''])"
    by simp
  have dl: "distinct (take 2 [''Area'', ''Use'', ''Zone''])" by simp
  from save_to_db_pairs_to_shorter[OF s j e n] dl s
  show ?thesis by (simp add: stored_sections_def)
qed

section \<open>Claims about the CAPTCHA relay\<close>

lemma polls_needed_done:
  assumes "0 < poll_interval" and "\<not> waited < timeout"
  shows "polls_needed timeout poll_interval waited = 0"
proof -
  have "timeout - waited + poll_interval - 1 \<le> poll_interval - 1" using assms(2) by simp
  then have "(timeout - waited + poll_interval - 1) div poll_interval \<le>
             (poll_interval - 1) div poll_interval"
    using assms(1) by (rule zdiv_mono1)
  also have "(poll_interval - 1) div poll_interval = 0" using assms(1) by simp
  finally show ?thesis by (simp add: polls_needed_def)
qed

lemma polls_needed_step:
  assumes "0 < poll_interval" and "waited < timeout"
  shows "polls_needed timeout poll_interval waited =
           Suc (polls_needed timeout poll_interval (waited + poll_interval))"
proof -
  let ?a = "timeout - (waited + poll_interval) + poll_interval - 1"
  have e: "timeout - waited + poll_interval - 1 = ?a + poll_interval" by simp
  have "(?a + poll_interval) div poll_interval = ?a div poll_interval + 1"
    using assms(1) by (simp add: div_add_self2)
  moreover have "0 \<le> ?a div poll_interval"
    using assms by (simp add: pos_imp_zdiv_nonneg_iff)
  ultimately show ?thesis unfolding polls_needed_def e by (simp add: nat_add_distrib)
qed

lemma wait_loop_times_out:
  assumes "0 < poll_interval" and "cache run_id = None \<or> cache run_id = Some []"
    and "quiet_from intake clock"
  shows "wait_loop intake run_id timeout poll_interval waited cache clock =
           Some (None, cache, clock + polls_needed timeout poll_interval waited)"
  using assms(3)
proof (induction "nat (timeout - waited)" arbitrary: waited clock rule: less_induct)
  case less
  show ?case
  proof (cases "waited < timeout")
    case False
    then show ?thesis
      using polls_needed_done[OF assms(1) False] by (subst wait_loop.simps) simp
  next
    case True
    have q: "intake clock = Quiet" "quiet_from intake (Suc clock)"
      using less.prems by (auto simp: quiet_from_def)
    have m: "nat (timeout - (waited + poll_interval)) < nat (timeout - waited)"
      using True assms(1) by simp
    have ih: "wait_loop intake run_id timeout poll_interval (waited + poll_interval) cache (Suc clock) =
           Some (None, cache, Suc clock + polls_needed timeout poll_interval (waited + poll_interval))"
      using less.hyps[OF m q(2)] .
    show ?thesis
      using True assms(2) q(1) ih polls_needed_step[OF assms(1) True]
      by (subst wait_loop.simps) auto
  qed
qed

lemma wait_loop_takes_value:
  assumes "waited < timeout" and "cache run_id = Some v" and "v \<noteq> []"
  shows "wait_loop intake run_id timeout poll_interval waited cache clock =
           Some (Some v, cache(run_id := None), clock)"
  using assms by (subst wait_loop.simps) simp

lemma wait_loop_result:
  assumes a: "wait_loop intake run_id timeout poll_interval waited cache clock = Some y"
  shows "fst y \<noteq> Some [] \<and> clock \<le> snd (snd y) \<and>
         (fst y \<noteq> None \<longrightarrow> fst (snd y) run_id = None)"
proof (rule wait_loop.raw_induct[where P = "\<lambda>intake run_id timeout poll_interval waited cache clock y.
      fst y \<noteq> Some [] \<and> clock \<le> snd (snd y) \<and> (fst y \<noteq> None \<longrightarrow> fst (snd y) run_id = None)",
      OF _ a], goal_cases)
  case (1 f intake run_id timeout poll_interval waited cache clock y)
  show ?case
  proof (cases "waited < timeout \<and> \<not> (cache run_id \<noteq> None \<and> cache run_id \<noteq> Some [])")
    case True
    with 1(2) have "f intake run_id timeout poll_interval (waited + poll_interval)
                   (apply_event (intake clock) cache) (Suc clock) = Some y"
      by (simp add: Let_def split: if_splits)
    from 1(1)[OF this] show ?thesis by simp
  next
    case False
    with 1(2) show ?thesis by (auto simp: Let_def split: if_splits)
  qed
qed


lemma py_strip_ends:
  assumes "py_strip s \<noteq> []"
  shows "\<not> py_isspace (hd (py_strip s)) \<and> \<not> py_isspace (last (py_strip s))"
proof -
  let ?t = "dropWhile py_isspace s"
  let ?u = "dropWhile py_isspace (rev ?t)"
  from assms have u: "?u \<noteq> []" by (simp add: py_strip_def)
  have t: "?t \<noteq> []"
  proof
    assume e: "?t = []"
    have "?u = []" unfolding e by simp
    with u show False by simp
  qed
  have "\<not> py_isspace (hd ?u)" using u by (rule hd_dropWhile)
  then have l: "\<not> py_isspace (last (py_strip s))" using u by (simp add: py_strip_def last_rev)
  have "rev ?t = takeWhile py_isspace (rev ?t) @ ?u" by simp
  then have "last (rev ?t) = last ?u" using u by (metis last_appendR)
  then have "last ?u = hd ?t" using t by (simp add: last_rev)
  moreover have "\<not> py_isspace (hd ?t)" using t by (rule hd_dropWhile)
  ultimately have "\<not> py_isspace (hd (py_strip s))" using u by (simp add: py_strip_def hd_rev)
  with l show ?thesis by simp
qed

lemma get_status_stores:
  assumes "fst (get_status latest_run request cache) k = Some v"
  shows "cache k = Some v \<or>
         (latest_run = Some k \<and> http_method request = ''POST'' \<and> v \<noteq> [] \<and>
          (\<exists>raw. post request ''captcha_value'' = Some raw \<and> v = py_strip raw))"
proof (cases "post request ''captcha_value''")
  case None
  have "py_strip [] = []" by (simp add: py_strip_def)
  with None assms show ?thesis
    by (auto simp: get_status_def Let_def split: if_splits option.splits)
next
  case (Some raw)
  with assms show ?thesis
    by (auto simp: get_status_def Let_def split: if_splits option.splits)
qed

lemma wait_loop_never_returns:
  assumes "poll_interval \<le> 0" and "waited < timeout"
    and "cache run_id = None \<or> cache run_id = Some []" and "quiet_from intake clock"
  shows "wait_loop intake run_id timeout poll_interval waited cache clock = None"
proof (cases "wait_loop intake run_id timeout poll_interval waited cache clock")
  case None
  then show ?thesis .
next
  case (Some y)
  have "\<not> (poll_interval \<le> 0 \<and> waited < timeout \<and>
           (cache run_id = None \<or> cache run_id = Some []) \<and> quiet_from intake clock)"
  proof (rule wait_loop.raw_induct[where P = "\<lambda>intake run_id timeout poll_interval waited cache clock y.
      \<not> (poll_interval \<le> 0 \<and> waited < timeout \<and>
           (cache run_id = None \<or> cache run_id = Some []) \<and> quiet_from intake clock)",
      OF _ Some], goal_cases)
    case (1 f intake run_id timeout poll_interval waited cache clock y)
    show ?case
    proof
      assume c: "poll_interval \<le> 0 \<and> waited < timeout \<and>
           (cache run_id = None \<or> cache run_id = Some []) \<and> quiet_from intake clock"
      then have q: "intake clock = Quiet" "quiet_from intake (Suc clock)"
        by (auto simp: quiet_from_def)
      from c 1(2) q(1) have "f intake run_id timeout poll_interval (waited + poll_interval)
          cache (Suc clock) = Some y"
        by (auto simp: Let_def split: if_splits)
      from 1(1)[OF this] c q(2) show False by simp
    qed
  qed
  with assms show ?thesis by simp
qed

text \<open>
  C2, as stated, fails. With the timeout 0 the loop is not entered: a wait that finds a
  value in the slot returns \<open>None\<close> and leaves the value where it is. With the poll
  interval 0 a wait that finds nothing never returns, so the second wait does not time
  out.
\<close>

theorem await_needs_positive_timeout:
  "wait_for_captcha_value (\<lambda>k. Quiet) 7 0 1 [7 \<mapsto> ''abc''] 0 =
     Some (None, [7 \<mapsto> ''abc''], 0) \<and>
   wait_for_captcha_value (\<lambda>k. Quiet) 7 180 0 Map.empty 0 = None"
proof
  show "wait_for_captcha_value (\<lambda>k. Quiet) 7 0 1 [7 \<mapsto> ''abc''] 0 =
     Some (None, [7 \<mapsto> ''abc''], 0)"
    unfolding wait_for_captcha_value_def by (subst wait_loop.simps) simp
  have "quiet_from (\<lambda>k. Quiet) 0" by (simp add: quiet_from_def)
  then show "wait_for_captcha_value (\<lambda>k. Quiet) 7 180 0 Map.empty 0 = None"
    unfolding wait_for_captcha_value_def by (intro wait_loop_never_returns) simp_all
qed

text \<open>
  C2, amended. With a positive timeout, a wait that finds a non-empty value in the slot
  returns it at the first poll, before any sleep (the clock is unchanged), whatever the
  intake side does later, and leaves the slot empty. A second wait started right away,
  with no new submission and a positive poll interval, finds nothing and returns \<open>None\<close>
  after the timeout: each submitted value is consumed exactly once.
\<close>

theorem await_consumes_once:
  assumes "0 < timeout" and "0 < poll_interval" and "cache run_id = Some v" and "v \<noteq> []"
    and "quiet_from intake' clock"
  shows "wait_for_captcha_value intake run_id timeout poll_interval cache clock =
           Some (Some v, cache(run_id := None), clock) \<and>
         wait_for_captcha_value intake' run_id timeout poll_interval (cache(run_id := None)) clock =
           Some (None, cache(run_id := None), clock + polls_needed timeout poll_interval 0)"
proof
  show "wait_for_captcha_value intake run_id timeout poll_interval cache clock =
           Some (Some v, cache(run_id := None), clock)"
    unfolding wait_for_captcha_value_def using assms(1,3,4) by (rule wait_loop_takes_value)
  have "(cache(run_id := None)) run_id = None \<or> (cache(run_id := None)) run_id = Some []"
    by simp
  with assms(2) show "wait_for_captcha_value intake' run_id timeout poll_interval
      (cache(run_id := None)) clock =
           Some (None, cache(run_id := None), clock + polls_needed timeout poll_interval 0)"
    unfolding wait_for_captcha_value_def using assms(5) by (rule wait_loop_times_out)
qed

theorem await_consumes_once_witness:
  "wait_for_captcha_value (\<lambda>k. Expired 7) 7 180 1 [7 \<mapsto> ''x7k2''] 0 =
     Some (Some ''x7k2'', [7 \<mapsto> ''x7k2''](7 := None), 0) \<and>
   wait_for_captcha_value (\<lambda>k. Quiet) 7 180 1 ([7 \<mapsto> ''x7k2''](7 := None)) 0 =
     Some (None, [7 \<mapsto> ''x7k2''](7 := None), 180)"
proof -
  have q: "quiet_from (\<lambda>k. Quiet) 0" by (simp add: quiet_from_def)
  have p: "polls_needed 180 1 0 = 180" by (simp add: polls_needed_def)
  have c: "[7 \<mapsto> ''x7k2''] (7::nat) = Some ''x7k2''" by simp
  have n: "''x7k2'' \<noteq> []" by simp
  have t: "(0::int) < 180" and i: "(0::int) < 1" by simp_all
  from await_consumes_once[where timeout = 180 and poll_interval = 1
      and cache = "[7 \<mapsto> ''x7k2'']" and run_id = 7 and v = "''x7k2''"
      and intake' = "\<lambda>k. Quiet" and clock = 0 and intake = "\<lambda>k. Expired 7"] t i c n q p
  show ?thesis by simp
qed

text \<open>
  C10. A wait never returns the empty string. A slot that holds the empty string counts
  as absent: without a new submission the wait polls until the timeout, returns \<open>None\<close>
  and leaves the slot as it was. The intake side changes a slot only to a non-empty text
  without whitespace at either end, the stripped form of the posted field.
\<close>

theorem await_never_empty:
  "(wait_for_captcha_value intake run_id timeout poll_interval cache clock = Some (r, cache', clock')
      \<longrightarrow> r \<noteq> Some []) \<and>
   (0 < poll_interval \<and> cache run_id = Some [] \<and> quiet_from intake clock
      \<longrightarrow> wait_for_captcha_value intake run_id timeout poll_interval cache clock =
            Some (None, cache, clock + polls_needed timeout poll_interval 0)) \<and>
   (fst (get_status latest_run request cache) k = Some v
      \<longrightarrow> cache k = Some v \<or>
          (latest_run = Some k \<and> v \<noteq> [] \<and> \<not> py_isspace (hd v) \<and> \<not> py_isspace (last v) \<and>
           (\<exists>raw. post request ''captcha_value'' = Some raw \<and> v = py_strip raw)))"
proof (intro conjI impI)
  assume "wait_for_captcha_value intake run_id timeout poll_interval cache clock =
      Some (r, cache', clock')"
  then show "r \<noteq> Some []"
    unfolding wait_for_captcha_value_def using wait_loop_result by fastforce
next
  assume a: "0 < poll_interval \<and> cache run_id = Some [] \<and> quiet_from intake clock"
  then have "cache run_id = None \<or> cache run_id = Some []" by simp
  with a show "wait_for_captcha_value intake run_id timeout poll_interval cache clock =
            Some (None, cache, clock + polls_needed timeout poll_interval 0)"
    unfolding wait_for_captcha_value_def by (simp add: wait_loop_times_out)
next
  assume "fst (get_status latest_run request cache) k = Some v"
  from get_status_stores[OF this] show "cache k = Some v \<or>
          (latest_run = Some k \<and> v \<noteq> [] \<and> \<not> py_isspace (hd v) \<and> \<not> py_isspace (last v) \<and>
           (\<exists>raw. post request ''captcha_value'' = Some raw \<and> v = py_strip raw))"
    using py_strip_ends by auto
qed

theorem await_never_empty_witness:
  "wait_for_captcha_value (\<lambda>k. Quiet) 7 3 1 [7 \<mapsto> []] 0 = Some (None, [7 \<mapsto> []], 3) \<and>
   fst (get_status (Some 7) captcha_post [7 \<mapsto> []]) 7 = Some ''ab12''"
proof -
  have q: "0 < (1::int) \<and> [7 \<mapsto> []] (7::nat) = Some [] \<and> quiet_from (\<lambda>k. Quiet) 0"
    by (simp add: quiet_from_def)
  have p: "polls_needed 3 1 0 = 3" by (simp add: polls_needed_def)
  have s: "py_strip '' ab12 '' = ''ab12''" by code_simp
  have g: "fst (get_status (Some 7) captcha_post [7 \<mapsto> []]) 7 = Some ''ab12''"
    by (simp add: get_status_def captcha_post_def s Let_def)
  from await_never_empty[of "\<lambda>k. Quiet" 7 3 1 "[7 \<mapsto> []]" 0 None "[7 \<mapsto> []]" 3 "Some 7"
      captcha_post 7 "''ab12''"] q p g
  show ?thesis by simp
qed

section \<open>Claims about the visual capture\<close>







section \<open>Claims about the scraping run\<close>

subsection \<open>The row loop\<close>

lemma all_sections_length: "length (all_sections_of t) = 5"
  by (simp add: all_sections_of_def Let_def)

lemma save_to_db_five:
  "length secs = 5 \<Longrightarrow> \<exists>r. save_to_db secs True db = Inr (db @ [r])"
  by (simp add: save_to_db_def)

lemma process_row_raises:
  assumes "row_raises i sc"
  shows "fst (process_row p i sc w) = RowFailed \<and>
         store (snd (process_row p i sc w)) = store w \<and>
         row_visits (snd (process_row p i sc w)) = row_visits w @ [(p, i)]"
proof (cases "refreshed sc")
  case None
  then show ?thesis by (simp add: process_row_def)
next
  case (Some n)
  with assms have n: "i < n" and c: "\<not> detail_opens sc \<or> tables sc = None \<or> \<not> save_ok sc"
    by (simp_all add: row_raises_def)
  show ?thesis
  proof (cases "detail_opens sc")
    case False
    with Some n show ?thesis by (simp add: process_row_def)
  next
    case True
    show ?thesis
    proof (cases "tables sc")
      case None
      with Some n True show ?thesis by (simp add: process_row_def create_status_def)
    next
      case (Some t)
      with c True have "\<not> save_ok sc" by simp
      then have "save_to_db (all_sections_of t) (save_ok sc) (store w) = Inl DatabaseError"
        by (simp add: save_to_db_def all_sections_length)
      with \<open>refreshed sc = Some n\<close> n True Some show ?thesis
        by (simp add: process_row_def create_status_def)
    qed
  qed
qed

lemma process_row_succeeds:
  assumes "row_succeeds i sc"
  shows "fst (process_row p i sc w) = RowSaved \<and>
         length (store (snd (process_row p i sc w))) = Suc (length (store w)) \<and>
         row_visits (snd (process_row p i sc w)) = row_visits w @ [(p, i)]"
proof -
  from assms obtain n t where s: "refreshed sc = Some n" "i < n" "detail_opens sc"
    "tables sc = Some t" "save_ok sc"
    by (auto simp: row_succeeds_def split: option.splits)
  obtain r where "save_to_db (all_sections_of t) True (store w) = Inr (store w @ [r])"
    using save_to_db_five[OF all_sections_length] by blast
  with s show ?thesis by (simp add: process_row_def create_status_def)
qed

lemma row_loop_all_succeed:
  assumes "\<forall>j<length rows. row_succeeds (i + j) (rows ! j)"
  shows "row_visits (row_loop p i rows w) = row_visits w @ map (Pair p) [i..<i + length rows] \<and>
         length (store (row_loop p i rows w)) = length (store w) + length rows"
  using assms
proof (induction rows arbitrary: i w)
  case Nil
  then show ?case by simp
next
  case (Cons sc rest)
  from Cons.prems have h: "row_succeeds i sc" by fastforce
  have t: "\<forall>j<length rest. row_succeeds (Suc i + j) (rest ! j)"
  proof (intro allI impI)
    fix j assume "j < length rest"
    then have "row_succeeds (i + Suc j) ((sc # rest) ! Suc j)" using Cons.prems by fastforce
    then show "row_succeeds (Suc i + j) (rest ! j)" by simp
  qed
  obtain w' where pr: "process_row p i sc w = (RowSaved, w')"
    using process_row_succeeds[OF h, of p w] by (cases "process_row p i sc w") simp
  with process_row_succeeds[OF h, of p w]
  have w': "length (store w') = Suc (length (store w))" "row_visits w' = row_visits w @ [(p, i)]"
    by simp_all
  have "[i..<i + length (sc # rest)] = i # [Suc i..<i + length (sc # rest)]"
    by (rule upt_conv_Cons) simp
  then have "[i..<i + length (sc # rest)] = i # [Suc i..<Suc i + length rest]"
    by (simp only: length_Cons add_Suc_right add_Suc)
  with Cons.IH[OF t, of w'] pr w' show ?case by simp
qed

lemma row_loop_skips_failure:
  assumes "row_raises i sc"
  shows "row_loop p i (sc # rest) w = row_loop p (Suc i) rest (snd (process_row p i sc w))"
  using process_row_raises[OF assms, of p w] by (cases "process_row p i sc w") simp

lemma row_loop_append:
  assumes "\<forall>j<length xs. row_succeeds (i + j) (xs ! j)"
  shows "row_loop p i (xs @ ys) w = row_loop p (i + length xs) ys (row_loop p i xs w)"
  using assms
proof (induction xs arbitrary: i w)
  case Nil
  then show ?case by simp
next
  case (Cons sc rest)
  from Cons.prems have h: "row_succeeds i sc" by fastforce
  have t: "\<forall>j<length rest. row_succeeds (Suc i + j) (rest ! j)"
  proof (intro allI impI)
    fix j assume "j < length rest"
    then have "row_succeeds (i + Suc j) ((sc # rest) ! Suc j)" using Cons.prems by fastforce
    then show "row_succeeds (Suc i + j) (rest ! j)" by simp
  qed
  obtain w' where pr: "process_row p i sc w = (RowSaved, w')"
    using process_row_succeeds[OF h, of p w] by (cases "process_row p i sc w") simp
  with Cons.IH[OF t, of w'] show ?case by simp
qed

text \<open>
  C7. On a results page with \<open>K\<close> rows where processing of row \<open>k\<close> throws and every
  other row succeeds, the body of the row loop is entered for every index \<open>0..K-1\<close>, in
  order, and exactly \<open>K - 1\<close> records are added to the store: the failing row does not
  end the loop.
\<close>

theorem one_failing_row_is_skipped:
  assumes "k < length rows" and "row_raises k (rows ! k)"
    and "\<forall>i<length rows. i \<noteq> k \<longrightarrow> row_succeeds i (rows ! i)"
  shows "row_visits (row_loop p 0 rows w) = row_visits w @ map (Pair p) [0..<length rows] \<and>
         length (store (row_loop p 0 rows w)) = length (store w) + (length rows - 1)"
proof -
  let ?pre = "take k rows" and ?post = "drop (Suc k) rows"
  have split: "rows = ?pre @ rows ! k # ?post" using assms(1) by (simp add: id_take_nth_drop)
  have lp: "length ?pre = k" using assms(1) by simp
  have pre: "\<forall>j<length ?pre. row_succeeds (0 + j) (?pre ! j)" using assms(1,3) by simp
  have post: "\<forall>j<length ?post. row_succeeds (Suc k + j) (?post ! j)" using assms(1,3) by simp
  let ?w1 = "row_loop p 0 ?pre w"
  let ?w2 = "snd (process_row p k (rows ! k) ?w1)"
  have "row_loop p 0 rows w = row_loop p 0 (?pre @ rows ! k # ?post) w" using split by simp
  also have "\<dots> = row_loop p k (rows ! k # ?post) ?w1"
    using row_loop_append[OF pre, of p "rows ! k # ?post" w] by (simp only: lp add.left_neutral)
  also have "\<dots> = row_loop p (Suc k) ?post ?w2"
    using assms(2) by (rule row_loop_skips_failure)
  finally have e: "row_loop p 0 rows w = row_loop p (Suc k) ?post ?w2" .
  from row_loop_all_succeed[OF pre, of p w] lp
  have 1: "row_visits ?w1 = row_visits w @ map (Pair p) [0..<k]"
    "length (store ?w1) = length (store w) + k" by simp_all
  from process_row_raises[OF assms(2), of p ?w1]
  have 2: "store ?w2 = store ?w1" "row_visits ?w2 = row_visits ?w1 @ [(p, k)]" by simp_all
  from row_loop_all_succeed[OF post, of p ?w2]
  have 3: "row_visits (row_loop p (Suc k) ?post ?w2) =
             row_visits ?w2 @ map (Pair p) [Suc k..<Suc k + length ?post]"
    "length (store (row_loop p (Suc k) ?post ?w2)) = length (store ?w2) + length ?post"
    by simp_all
  have lpost: "Suc k + length ?post = length rows" using assms(1) by simp
  have ua: "[0..<k + (length rows - k)] = [0..<k] @ [k..<k + (length rows - k)]"
    by (rule upt_add_eq_append) simp
  have ub: "k + (length rows - k) = length rows" using assms(1) by simp
  have uc: "[k..<length rows] = k # [Suc k..<length rows]" using assms(1) by (rule upt_conv_Cons)
  have u: "[0..<length rows] = [0..<k] @ k # [Suc k..<length rows]"
    using ua unfolding ub uc .
  have "row_visits (row_loop p 0 rows w) =
          ((row_visits w @ map (Pair p) [0..<k]) @ [(p, k)]) @ map (Pair p) [Suc k..<length rows]"
    unfolding e 3(1) 2(2) 1(1) lpost ..
  also have "\<dots> = row_visits w @ map (Pair p) ([0..<k] @ k # [Suc k..<length rows])"
    by (simp only: map_append list.map append_assoc append_Cons append_Nil)
  finally have v: "row_visits (row_loop p 0 rows w) = row_visits w @ map (Pair p) [0..<length rows]"
    unfolding u[symmetric] .
  have "length (store (row_loop p 0 rows w)) = length (store w) + k + length ?post"
    unfolding e 3(2) 2(1) 1(2) ..
  also have "\<dots> = length (store w) + (length rows - 1)" using assms(1) by simp
  finally show ?thesis using v by simp
qed

theorem one_failing_row_is_skipped_witness:
  "row_visits (row_loop 0 0 three_rows blank_world) = [(0, 0), (0, 1), (0, 2)] \<and>
   length (store (row_loop 0 0 three_rows blank_world)) = 2"
proof -
  have k: "1 < length three_rows" by (simp add: three_rows_def)
  have f: "row_raises 1 (three_rows ! 1)"
    by (simp add: three_rows_def row_raises_def stale_row_def)
  have g: "\<forall>i<length three_rows. i \<noteq> 1 \<longrightarrow> row_succeeds i (three_rows ! i)"
  proof (intro allI impI)
    fix i assume "i < length three_rows" "i \<noteq> 1"
    then have "i = 0 \<or> i = 2" by (auto simp: three_rows_def)
    then show "row_succeeds i (three_rows ! i)"
      by (auto simp: three_rows_def row_succeeds_def good_row_def)
  qed
  have u: "map (Pair (0::nat)) [0..<length three_rows] = [(0, 0), (0, 1), (0, 2)]"
    by (simp add: three_rows_def upt_rec)
  from one_failing_row_is_skipped[OF k f g, of 0 blank_world] u
  show ?thesis by (simp add: blank_world_def three_rows_def)
qed

subsection \<open>Pagination\<close>

lemma process_row_frame:
  "page_visits (snd (process_row p i sc w)) = page_visits w \<and>
   quit_calls (snd (process_row p i sc w)) = quit_calls w"
  by (simp add: process_row_def create_status_def Let_def split: option.splits sum.splits)

lemma row_loop_frame:
  "page_visits (row_loop p i rows w) = page_visits w \<and>
   quit_calls (row_loop p i rows w) = quit_calls w"
proof (induction rows arbitrary: i w)
  case Nil
  then show ?case by simp
next
  case (Cons sc rest)
  obtain r w' where pr: "process_row p i sc w = (r, w')" by (cases "process_row p i sc w")
  with process_row_frame[of p i sc w]
  have f: "page_visits w' = page_visits w" "quit_calls w' = quit_calls w" by simp_all
  show ?case
  proof (cases r)
    case RowBreak
    with pr f show ?thesis by simp
  next
    case RowSaved
    with pr f Cons.IH[of "Suc i" w'] show ?thesis by simp
  next
    case RowFailed
    with pr f Cons.IH[of "Suc i" w'] show ?thesis by simp
  qed
qed

lemma page_loop_stops:
  assumes "listing (pages env p) = Some rows" and "pagination_stops (next_ctl (pages env p))"
  shows "page_loop env p w =
           Some (True, row_loop p 0 rows (w\<lparr>page_visits := page_visits w @ [p]\<rparr>))"
  using assms by (subst page_loop.simps) (auto simp: pagination_stops_def Let_def)

lemma page_loop_advances:
  assumes "listing (pages env p) = Some rows" and "\<not> pagination_stops (next_ctl (pages env p))"
  shows "page_loop env p w =
           page_loop env (Suc p) (row_loop p 0 rows (w\<lparr>page_visits := page_visits w @ [p]\<rparr>))"
  using assms by (subst page_loop.simps) (auto simp: pagination_stops_def Let_def)

lemma page_loop_to_end:
  assumes "pagination_stops (next_ctl (pages env (N - 1)))"
  shows "p < N \<Longrightarrow> \<forall>q<N. listing (pages env q) \<noteq> None \<Longrightarrow>
         \<forall>q<N - 1. \<not> pagination_stops (next_ctl (pages env q)) \<Longrightarrow>
         \<exists>w'. page_loop env p w = Some (True, w') \<and> page_visits w' = page_visits w @ [p..<N]"
proof (induction "N - 1 - p" arbitrary: p w)
  case 0
  then have p: "p = N - 1" by simp
  from 0(2,3) obtain rows where rows: "listing (pages env p) = Some rows" by auto
  let ?w = "row_loop p 0 rows (w\<lparr>page_visits := page_visits w @ [p]\<rparr>)"
  have "page_loop env p w = Some (True, ?w)"
    using rows assms unfolding p[symmetric] by (rule page_loop_stops)
  moreover have "page_visits ?w = page_visits w @ [p]" by (simp add: row_loop_frame)
  moreover have "[p..<N] = [p]" using p 0(2) by (simp add: upt_conv_Cons)
  ultimately show ?case by simp
next
  case (Suc d)
  then have lt: "p < N - 1" and sp: "Suc p < N" by simp_all
  from Suc(3,4) obtain rows where rows: "listing (pages env p) = Some rows" by auto
  let ?w = "row_loop p 0 rows (w\<lparr>page_visits := page_visits w @ [p]\<rparr>)"
  have ns: "\<not> pagination_stops (next_ctl (pages env p))" using Suc(5) lt by simp
  have adv: "page_loop env p w = page_loop env (Suc p) ?w"
    using rows ns by (rule page_loop_advances)
  have d: "d = N - 1 - Suc p" using Suc(2) by simp
  from Suc(1)[OF d sp Suc(4) Suc(5), of ?w]
  obtain w' where w': "page_loop env (Suc p) ?w = Some (True, w')"
    "page_visits w' = page_visits ?w @ [Suc p..<N]" by blast
  have "page_visits ?w = page_visits w @ [p]" by (simp add: row_loop_frame)
  moreover have "[p..<N] = p # [Suc p..<N]" using Suc(3) by (rule upt_conv_Cons)
  ultimately have "page_visits w' = page_visits w @ [p..<N]" using w'(2) by simp
  with adv w'(1) show ?case by simp
qed

text \<open>
  C8. On a site of \<open>N\<close> result pages whose row lists can be read, where the pagination
  step goes on for the first \<open>N - 1\<close> pages and stops on the last one (the next button
  carries \<open>disabled\<close> in its class, or is missing, or an exception occurs in the step), the
  page loop returns, it has visited the pages \<open>0..N-1\<close> once each and in order, and the
  results phase ends with the completed exit and not with an error.
\<close>

theorem pagination_reaches_done:
  assumes "0 < N" and "results_ready env"
    and "\<forall>p<N. listing (pages env p) \<noteq> None"
    and "\<forall>p<N - 1. \<not> pagination_stops (next_ctl (pages env p))"
    and "pagination_stops (next_ctl (pages env (N - 1)))"
  shows "\<exists>w'. page_loop env 0 w = Some (True, w') \<and>
              page_visits w' = page_visits w @ [0..<N] \<and>
              (\<exists>w''. results_phase env w = Some (Returned Completed, w'') \<and>
                     page_visits w'' = page_visits w')"
proof -
  from page_loop_to_end[OF assms(5) assms(1) assms(3) assms(4), of w]
  obtain w' where w': "page_loop env 0 w = Some (True, w')"
    "page_visits w' = page_visits w @ [0..<N]" by blast
  let ?w = "create_status
      ''Scraping completed successfully! Go to /get-status/ to review and download from /download-excel/''
      False w'"
  have "results_phase env w = Some (Returned Completed, ?w)"
    using assms(2) w'(1) by (simp add: results_phase_def)
  moreover have "page_visits ?w = page_visits w'" by (simp add: create_status_def)
  ultimately show ?thesis using w' by blast
qed

theorem pagination_reaches_done_witness:
  "\<exists>w'. page_loop answered_env 0 blank_world = Some (True, w') \<and>
        page_visits w' = [0, 1] \<and>
        (\<exists>w''. results_phase answered_env blank_world = Some (Returned Completed, w'') \<and>
               page_visits w'' = page_visits w')"
proof -
  have n: "(0::nat) < 2" by simp
  have r: "results_ready answered_env" by (simp add: answered_env_def)
  have l: "\<forall>p<2. listing (pages answered_env p) \<noteq> None"
    by (simp add: answered_env_def two_pages_def)
  have c: "\<forall>p<2 - 1. \<not> pagination_stops (next_ctl (pages answered_env p))"
    by (simp add: answered_env_def two_pages_def pagination_stops_def)
  have s: "pagination_stops (next_ctl (pages answered_env (2 - 1)))"
    by (simp add: answered_env_def two_pages_def pagination_stops_def)
  have u: "[0..<2] = [0, 1::nat]" by (simp add: upt_rec)
  from pagination_reaches_done[OF n r l c s, of blank_world] u
  show ?thesis by (simp add: blank_world_def)
qed

subsection \<open>Closing the browser\<close>

lemma create_status_quits [simp]: "quit_calls (create_status m b w) = quit_calls w"
  by (simp add: create_status_def)

lemma driver_quit_quits [simp]: "quit_calls (driver_quit w) = Suc (quit_calls w)"
  by (simp add: driver_quit_def)

lemma login_attempt_quits:
  "login_attempt env run_id sc w = Some (b, w') \<Longrightarrow> quit_calls w' = quit_calls w"
  by (auto simp: login_attempt_def Let_def split: if_splits option.splits prod.splits)

lemma login_loop_quits:
  "login_loop env run_id n attempt w = Some (b, w') \<Longrightarrow> quit_calls w' = quit_calls w"
proof (induction n arbitrary: attempt w)
  case 0
  then show ?case by simp
next
  case (Suc n)
  from Suc.prems obtain b1 w1 where a: "login_attempt env run_id (login_scripts env attempt) w = Some (b1, w1)"
    by (auto split: option.splits)
  then have q: "quit_calls w1 = quit_calls w" by (rule login_attempt_quits)
  show ?case
  proof (cases b1)
    case True
    with Suc.prems a q show ?thesis by simp
  next
    case False
    with Suc.prems a have "login_loop env run_id n (Suc attempt) w1 = Some (b, w')" by simp
    then have "quit_calls w' = quit_calls w1" by (rule Suc.IH)
    with q show ?thesis by simp
  qed
qed

lemma filter_attempt_quits:
  "filter_attempt env run_id sc w = Some (r, w') \<Longrightarrow>
   quit_calls w' = quit_calls w + (if r = Abort then 1 else 0)"
  by (auto simp: filter_attempt_def Let_def split: if_splits option.splits prod.splits)

lemma filter_loop_quits:
  "filter_loop env run_id n retry w = Some (r, w') \<Longrightarrow>
   quit_calls w' = quit_calls w + (if r = Abort then 1 else 0)"
proof (induction n arbitrary: retry w)
  case 0
  then show ?case by auto
next
  case (Suc n)
  from Suc.prems obtain r1 w1 where a: "filter_attempt env run_id (filter_scripts env retry) w = Some (r1, w1)"
    by (auto split: option.splits)
  then have q: "quit_calls w1 = quit_calls w + (if r1 = Abort then 1 else 0)"
    by (rule filter_attempt_quits)
  show ?case
  proof (cases r1)
    case Retry
    with Suc.prems a have "filter_loop env run_id n (Suc retry) w1 = Some (r, w')" by simp
    then have "quit_calls w' = quit_calls w1 + (if r = Abort then 1 else 0)" by (rule Suc.IH)
    with q Retry show ?thesis by simp
  next
    case Passed
    with Suc.prems a q show ?thesis by simp
  next
    case Abort
    with Suc.prems a q show ?thesis by simp
  qed
qed

lemma page_loop_quits:
  assumes a: "page_loop env p w = Some y"
  shows "quit_calls (snd y) = quit_calls w"
proof (rule page_loop.raw_induct[where P = "\<lambda>env p w y. quit_calls (snd y) = quit_calls w",
      OF _ a], goal_cases)
  case (1 f env p w y)
  show ?case
  proof (cases "listing (pages env p)")
    case None
    with 1(2) show ?thesis by auto
  next
    case (Some rows)
    let ?w = "row_loop p 0 rows (w\<lparr>page_visits := page_visits w @ [p]\<rparr>)"
    have q: "quit_calls ?w = quit_calls w" by (simp add: row_loop_frame)
    show ?thesis
    proof (cases "pagination_stops (next_ctl (pages env p))")
      case True
      with 1(2) Some have "y = (True, ?w)"
        by (auto simp: pagination_stops_def Let_def split: if_splits)
      with q show ?thesis by simp
    next
      case False
      with 1(2) Some have "f env (Suc p) ?w = Some y"
        by (auto simp: pagination_stops_def Let_def split: if_splits)
      from 1(1)[OF this] q show ?thesis by simp
    qed
  qed
qed

lemma results_phase_quits:
  "results_phase env w = Some (out, w') \<Longrightarrow>
   quit_calls w' = quit_calls w \<and> (out = Raised \<or> out = Returned Completed)"
  by (auto simp: results_phase_def split: if_splits option.splits prod.splits bool.splits
      dest: page_loop_quits)

lemma session_quits:
  assumes "session env run_id w = Some (out, w')"
  shows "(out = Raised \<and> quit_calls w' = quit_calls w) \<or>
         (out = Returned Completed \<and> quit_calls w' = quit_calls w) \<or>
         (\<exists>e. out = Returned e \<and> early_exit e \<and> quit_calls w' = Suc (quit_calls w))"
proof (cases "home_loads env")
  case False
  with assms show ?thesis by (simp add: session_def)
next
  case True
  let ?w1 = "create_status ''Filling Username And Password To login'' False w"
  from assms True obtain ok w2 where l: "login_loop env run_id 10 0 ?w1 = Some (ok, w2)"
    by (auto simp: session_def Let_def split: option.splits)
  then have q2: "quit_calls w2 = quit_calls w" using login_loop_quits by fastforce
  show ?thesis
  proof (cases "ok \<and> header_ok (nav env) \<and> 2 < links_found (nav env) \<and>
      link_click_ok (nav env) \<and> options_ok (nav env)")
    case False
    with assms True l q2 show ?thesis
      by (auto simp: session_def Let_def early_exit_def split: if_splits)
  next
    case nav: True
    from assms True l nav obtain r w3 where f: "filter_loop env run_id 10 0 w2 = Some (r, w3)"
      by (auto simp: session_def Let_def split: option.splits)
    then have q3: "quit_calls w3 = quit_calls w2 + (if r = Abort then 1 else 0)"
      by (rule filter_loop_quits)
    show ?thesis
    proof (cases r)
      case Passed
      with assms True l nav f have "results_phase env w3 = Some (out, w')"
        by (simp add: session_def Let_def)
      from results_phase_quits[OF this] q3 q2 Passed show ?thesis by auto
    next
      case Retry
      with assms True l nav f q3 q2 show ?thesis
        by (auto simp: session_def Let_def early_exit_def)
    next
      case Abort
      with assms True l nav f q3 q2 show ?thesis
        by (auto simp: session_def Let_def early_exit_def)
    qed
  qed
qed

text \<open>
  C1, as stated, fails: when the operator never answers, ten prompts time out, the view
  returns through the login exhaustion exit, and \<open>driver.quit()\<close> has been called twice,
  once before the \<open>return\<close> and once by the \<open>finally\<close> block.
\<close>

theorem double_quit_counterexample:
  "session_opened unanswered_env scrape_post \<and>
   map_option (\<lambda>(e, w). (e, quit_calls w))
     (trigger_scrape unanswered_env scrape_post 1 blank_world) = Some (LoginExhausted, 2)"
  by code_simp

text \<open>
  C1, amended. For every run in which a browser session is opened and which returns, the
  driver is quit before the view returns: exactly once on success and after an exception
  raised in the session, and twice on the four early exits (login exhaustion, filter
  exhaustion, missing navigation links, missing filter options). The view ends in one of
  these ways and in no other.
\<close>

theorem driver_quit_on_every_exit:
  assumes "trigger_scrape env request run_id w = Some (e, w')" and "session_opened env request"
  shows "quit_calls w' = quit_calls w + (if early_exit e then 2 else 1) \<and>
         (early_exit e \<or> e = Completed \<or> e = ScrapingFailed)"
proof -
  from assms(2) have p: "http_method request = ''POST''" and d: "parse_dates env request \<noteq> None"
    and s: "driver_starts env" by (simp_all add: session_opened_def)
  from d obtain dates where dates: "parse_dates env request = Some dates" by blast
  from assms(1) p dates s obtain out w1 where o: "session env run_id w = Some (out, w1)"
    by (auto simp: trigger_scrape_def split: option.splits)
  have ne: "\<not> early_exit Completed" "\<not> early_exit ScrapingFailed" by (simp_all add: early_exit_def)
  from session_quits[OF o] show ?thesis
  proof (elim disjE conjE exE)
    assume "out = Raised" "quit_calls w1 = quit_calls w"
    with assms(1) p dates s o ne show ?thesis by (auto simp: trigger_scrape_def)
  next
    assume "out = Returned Completed" "quit_calls w1 = quit_calls w"
    with assms(1) p dates s o ne show ?thesis by (auto simp: trigger_scrape_def)
  next
    fix e' assume "out = Returned e'" "early_exit e'" "quit_calls w1 = Suc (quit_calls w)"
    with assms(1) p dates s o show ?thesis by (auto simp: trigger_scrape_def)
  qed
qed

lemma answered_run:
  "map_option (\<lambda>(e, w). (e, length (store w), page_visits w))
     (trigger_scrape answered_env scrape_post 1 blank_world) = Some (Completed, 3, [0, 1])"
  by code_simp

lemma session_opened_answered: "session_opened answered_env scrape_post"
  by code_simp

lemma session_opened_unanswered: "session_opened unanswered_env scrape_post"
  by code_simp

theorem driver_quit_on_every_exit_witness:
  "(\<exists>w'. trigger_scrape unanswered_env scrape_post 1 blank_world = Some (LoginExhausted, w') \<and>
         quit_calls w' = 2) \<and>
   (\<exists>w'. trigger_scrape answered_env scrape_post 1 blank_world = Some (Completed, w') \<and>
         quit_calls w' = 1)"
proof
  have "map_option fst (trigger_scrape unanswered_env scrape_post 1 blank_world) =
      Some LoginExhausted" by code_simp
  then obtain w' where r: "trigger_scrape unanswered_env scrape_post 1 blank_world =
      Some (LoginExhausted, w')" by (auto simp: map_option_case split: option.splits)
  from driver_quit_on_every_exit[OF r session_opened_unanswered]
  have "quit_calls w' = 2" by (simp add: early_exit_def blank_world_def)
  with r show "\<exists>w'. trigger_scrape unanswered_env scrape_post 1 blank_world =
      Some (LoginExhausted, w') \<and> quit_calls w' = 2" by blast
next
  from answered_run obtain w' where r: "trigger_scrape answered_env scrape_post 1 blank_world =
      Some (Completed, w')" by (auto simp: map_option_case split: option.splits)
  from driver_quit_on_every_exit[OF r session_opened_answered]
  have "quit_calls w' = 1" by (simp add: early_exit_def blank_world_def)
  with r show "\<exists>w'. trigger_scrape answered_env scrape_post 1 blank_world =
      Some (Completed, w') \<and> quit_calls w' = 1" by blast
qed

end
